theory Spec2Isabelle
  imports Main "HOL-Library.Word"
begin

section \<open>Undefined behaviour as error values\<close>

text \<open>
  The library reports no errors of its own.  What C++ leaves undefined (moving an iterator
  past the end of its collection, reading through the end iterator, signed overflow of the
  \<open>int\<close> counter, reading a member that was never assigned) and a loop that never returns are
  made visible as values of \<open>error\<close>; every method returns \<open>error + result\<close>.
\<close>

datatype error =
    IncrementPastEnd
  | DerefPastEnd
  | SignedOverflow
  | UninitializedRead
  | NoReturn

definition returned :: "(error + 'a) option \<Rightarrow> error + 'a" where
  "returned r = (case r of None \<Rightarrow> Inl NoReturn | Some v \<Rightarrow> v)"

text \<open>
  \<open>int\<close> is the 32-bit signed type.  Counts are modelled as mathematical integers; the one
  place where the source's arithmetic can leave the range, \<open>--amount_\<close> at \<open>INT_MIN\<close>, is an error.
\<close>

definition INT_MIN :: int where
  "INT_MIN = - 2147483648"

section \<open>The abstract class \<open>enumerator\<close>\<close>

text \<open>
  \<open>enumerator<T>\<close> has three pure virtual methods.  An object of a concrete class is a pair
  of its method table and its state; the methods take the state and return the new one,
  since \<open>operator bool\<close> (until) and \<open>operator*\<close> (select) write to members.
  \<open>deref\<close> is \<open>operator*\<close>, \<open>incr\<close> is \<open>operator++\<close>, \<open>to_bool\<close> is \<open>operator bool\<close>.

  Of a class \<open>take_enumerator\<close>, the constructor is \<open>take_ctor\<close>, the three methods are
  \<open>take_deref\<close>, \<open>take_incr\<close> and \<open>take_bool\<close>, and \<open>take_class\<close> is its method table over the method
  table of the upstream.  A member \<open>amount_\<close> is the field \<open>take_amount\<close>: the class name replaces
  the trailing underscore.  Likewise for the other classes.
\<close>

record ('s, 'a) enumerator =
  deref :: "'s \<Rightarrow> error + 'a \<times> 's"
  incr :: "'s \<Rightarrow> error + 's"
  to_bool :: "'s \<Rightarrow> error + bool \<times> 's"

type_synonym ('s, 'a) obj = "('s, 'a) enumerator \<times> 's"

text \<open>\<open>enumerator::to_vector\<close>: \<open>while (*this) { result.push_back(**this); ++(*this); }\<close>\<close>

partial_function (option) to_vector_loop ::
  "('s, 'a) enumerator \<Rightarrow> 'a list \<Rightarrow> 's \<Rightarrow> (error + 'a list \<times> 's) option" where
  "to_vector_loop E result s =
     (case to_bool E s of
        Inl e \<Rightarrow> Some (Inl e)
      | Inr (b, s1) \<Rightarrow>
          if \<not> b then Some (Inr (result, s1))
          else (case deref E s1 of
                  Inl e \<Rightarrow> Some (Inl e)
                | Inr (x, s2) \<Rightarrow>
                    (case incr E s2 of
                       Inl e \<Rightarrow> Some (Inl e)
                     | Inr s3 \<Rightarrow> to_vector_loop E (result @ [x]) s3)))"

declare to_vector_loop.simps [code]

definition to_vector :: "('s, 'a) obj \<Rightarrow> error + 'a list \<times> 's" where
  "to_vector c = returned (to_vector_loop (fst c) [] (snd c))"

section \<open>\<open>range_enumerator\<close>\<close>

text \<open>
  The fields \<open>begin_\<close> and \<open>end_\<close> are \<open>range_begin\<close> and \<open>range_end\<close>.
  An iterator is a position in the caller's collection \<open>range_coll\<close>; position \<open>length range_coll\<close> is the
  past-the-end iterator, which C++ allows neither to increment nor to dereference.
\<close>

record 'a range_enumerator =
  range_coll :: "'a list"
  range_begin :: nat
  range_end :: nat

definition range_incr :: "'a range_enumerator \<Rightarrow> error + 'a range_enumerator" where
  "range_incr r =
     (if range_begin r < length (range_coll r) then Inr (r\<lparr>range_begin := range_begin r + 1\<rparr>)
      else Inl IncrementPastEnd)"

definition range_bool :: "'a range_enumerator \<Rightarrow> error + bool \<times> 'a range_enumerator" where
  "range_bool r = Inr (range_begin r \<noteq> range_end r, r)"

definition range_deref :: "'a range_enumerator \<Rightarrow> error + 'a \<times> 'a range_enumerator" where
  "range_deref r =
     (if range_begin r < length (range_coll r) then Inr (range_coll r ! range_begin r, r)
      else Inl DerefPastEnd)"

definition range_class :: "('a range_enumerator, 'a) enumerator" where
  "range_class = \<lparr>deref = range_deref, incr = range_incr, to_bool = range_bool\<rparr>"

text \<open>\<open>linq::from(begin, end)\<close>, and \<open>from(S.begin(), S.end())\<close> for a whole collection.\<close>

definition linq_from :: "'a list \<Rightarrow> nat \<Rightarrow> nat \<Rightarrow> ('a range_enumerator, 'a) obj" where
  "linq_from xs b e = (range_class, \<lparr>range_coll = xs, range_begin = b, range_end = e\<rparr>)"

definition from_all :: "'a list \<Rightarrow> ('a range_enumerator, 'a) obj" where
  "from_all xs = linq_from xs 0 (length xs)"

section \<open>\<open>take_enumerator\<close>\<close>

text \<open>
  A decorator holds a reference to its upstream object.  Inside one chain the upstream is
  reached through that reference only, so the decorator's state carries the upstream's state
  (\<open>parent_\<close>) and every method hands the updated upstream back inside the new state.
\<close>

record 's take_enumerator =
  take_parent :: 's
  take_amount :: int

definition take_ctor :: "'s \<Rightarrow> int \<Rightarrow> 's take_enumerator" where
  "take_ctor parent amount = \<lparr>take_parent = parent, take_amount = amount\<rparr>"

text \<open>\<open>++parent_; --amount_;\<close> where \<open>--amount_\<close> at \<open>INT_MIN\<close> overflows.\<close>

definition take_incr :: "('s, 'a) enumerator \<Rightarrow> 's take_enumerator \<Rightarrow> error + 's take_enumerator" where
  "take_incr P s =
     (case incr P (take_parent s) of
        Inl e \<Rightarrow> Inl e
      | Inr p \<Rightarrow>
          if take_amount s = INT_MIN then Inl SignedOverflow
          else Inr \<lparr>take_parent = p, take_amount = take_amount s - 1\<rparr>)"

text \<open>\<open>amount_ > 0 && static_cast<bool>(parent_)\<close>: the upstream is not asked when \<open>amount_ \<le> 0\<close>.\<close>

definition take_bool ::
  "('s, 'a) enumerator \<Rightarrow> 's take_enumerator \<Rightarrow> error + bool \<times> 's take_enumerator" where
  "take_bool P s =
     (if take_amount s > 0 then
        (case to_bool P (take_parent s) of
           Inl e \<Rightarrow> Inl e
         | Inr (b, p) \<Rightarrow> Inr (b, s\<lparr>take_parent := p\<rparr>))
      else Inr (False, s))"

definition take_deref ::
  "('s, 'a) enumerator \<Rightarrow> 's take_enumerator \<Rightarrow> error + 'a \<times> 's take_enumerator" where
  "take_deref P s =
     (case deref P (take_parent s) of
        Inl e \<Rightarrow> Inl e
      | Inr (x, p) \<Rightarrow> Inr (x, s\<lparr>take_parent := p\<rparr>))"

definition take_class :: "('s, 'a) enumerator \<Rightarrow> ('s take_enumerator, 'a) enumerator" where
  "take_class P = \<lparr>deref = take_deref P, incr = take_incr P, to_bool = take_bool P\<rparr>"

section \<open>\<open>drop_enumerator\<close>\<close>

record 's drop_enumerator =
  drop_parent :: 's

text \<open>The constructor's loop \<open>for (int i = 0; (i < amount) && static_cast<bool>(parent_); ++i) ++parent_;\<close>\<close>

function drop_loop :: "('s, 'a) enumerator \<Rightarrow> int \<Rightarrow> int \<Rightarrow> 's \<Rightarrow> error + 's" where
  "drop_loop P i amount p =
     (if i < amount then
        (case to_bool P p of
           Inl e \<Rightarrow> Inl e
         | Inr (b, p1) \<Rightarrow>
             if b then
               (case incr P p1 of
                  Inl e \<Rightarrow> Inl e
                | Inr p2 \<Rightarrow> drop_loop P (i + 1) amount p2)
             else Inr p1)
      else Inr p)"
  by pat_completeness auto
termination
  by (relation "measure (\<lambda>(P, i, amount, p). nat (amount - i))") auto

declare drop_loop.simps [simp del]

definition drop_ctor :: "('s, 'a) enumerator \<Rightarrow> 's \<Rightarrow> int \<Rightarrow> error + 's drop_enumerator" where
  "drop_ctor P parent amount =
     (case drop_loop P 0 amount parent of
        Inl e \<Rightarrow> Inl e
      | Inr p \<Rightarrow> Inr \<lparr>drop_parent = p\<rparr>)"

definition drop_incr :: "('s, 'a) enumerator \<Rightarrow> 's drop_enumerator \<Rightarrow> error + 's drop_enumerator" where
  "drop_incr P s =
     (case incr P (drop_parent s) of
        Inl e \<Rightarrow> Inl e
      | Inr p \<Rightarrow> Inr (s\<lparr>drop_parent := p\<rparr>))"

definition drop_bool ::
  "('s, 'a) enumerator \<Rightarrow> 's drop_enumerator \<Rightarrow> error + bool \<times> 's drop_enumerator" where
  "drop_bool P s =
     (case to_bool P (drop_parent s) of
        Inl e \<Rightarrow> Inl e
      | Inr (b, p) \<Rightarrow> Inr (b, s\<lparr>drop_parent := p\<rparr>))"

definition drop_deref ::
  "('s, 'a) enumerator \<Rightarrow> 's drop_enumerator \<Rightarrow> error + 'a \<times> 's drop_enumerator" where
  "drop_deref P s =
     (case deref P (drop_parent s) of
        Inl e \<Rightarrow> Inl e
      | Inr (x, p) \<Rightarrow> Inr (x, s\<lparr>drop_parent := p\<rparr>))"

definition drop_class :: "('s, 'a) enumerator \<Rightarrow> ('s drop_enumerator, 'a) enumerator" where
  "drop_class P = \<lparr>deref = drop_deref P, incr = drop_incr P, to_bool = drop_bool P\<rparr>"

section \<open>\<open>select_enumerator\<close>\<close>

text \<open>
  \<open>select_enumerator<T, U, F>\<close> presents elements of type \<open>T\<close> (\<open>'t\<close>) over an upstream of \<open>U\<close> (\<open>'u\<close>).
  \<open>enumerator::select\<close> takes the presented type as a template argument of its own, by default
  the element type of \<open>*this\<close>; it is not taken from \<open>func\<close>.  The result of \<open>func_\<close>, of type
  \<open>'r\<close>, is converted to \<open>T\<close> by the assignment \<open>value_ = func_( *parent_)\<close>.  That implicit
  conversion is fixed by the two types: it is the parameter \<open>convert\<close> of the class, the identity
  when \<open>func_\<close> returns a \<open>T\<close>.

  \<open>value_\<close> is not assigned by the constructor: \<open>None\<close> until the first \<open>operator*\<close>.
  \<open>select_calls\<close> is not in the source: it records, in order, the arguments \<open>func_\<close> has been
  invoked on, so that the number of invocations can be stated.  No method reads it.
\<close>

record ('s, 'u, 'r, 't) select_enumerator =
  select_parent :: 's
  select_value :: "'t option"
  select_func :: "'u \<Rightarrow> 'r"
  select_flag :: bool
  select_calls :: "'u list"

definition select_ctor :: "'s \<Rightarrow> ('u \<Rightarrow> 'r) \<Rightarrow> ('s, 'u, 'r, 't) select_enumerator" where
  "select_ctor parent func =
     \<lparr>select_parent = parent, select_value = None, select_func = func,
      select_flag = True, select_calls = []\<rparr>"

definition select_incr ::
  "('s, 'u) enumerator \<Rightarrow> ('s, 'u, 'r, 't) select_enumerator
     \<Rightarrow> error + ('s, 'u, 'r, 't) select_enumerator" where
  "select_incr P s =
     (case incr P (select_parent s) of
        Inl e \<Rightarrow> Inl e
      | Inr p \<Rightarrow> Inr (s\<lparr>select_parent := p, select_flag := True\<rparr>))"

definition select_bool ::
  "('s, 'u) enumerator \<Rightarrow> ('s, 'u, 'r, 't) select_enumerator
     \<Rightarrow> error + bool \<times> ('s, 'u, 'r, 't) select_enumerator" where
  "select_bool P s =
     (case to_bool P (select_parent s) of
        Inl e \<Rightarrow> Inl e
      | Inr (b, p) \<Rightarrow> Inr (b, s\<lparr>select_parent := p\<rparr>))"

text \<open>\<open>if (flag_) { value_ = func_( *parent_); flag_ = false; } return value_;\<close>\<close>

definition select_deref ::
  "('r \<Rightarrow> 't) \<Rightarrow> ('s, 'u) enumerator \<Rightarrow> ('s, 'u, 'r, 't) select_enumerator
     \<Rightarrow> error + 't \<times> ('s, 'u, 'r, 't) select_enumerator" where
  "select_deref convert P s =
     (if select_flag s then
        (case deref P (select_parent s) of
           Inl e \<Rightarrow> Inl e
         | Inr (u, p) \<Rightarrow>
             Inr (convert (select_func s u),
                  s\<lparr>select_parent := p, select_value := Some (convert (select_func s u)),
                    select_flag := False, select_calls := select_calls s @ [u]\<rparr>))
      else
        (case select_value s of
           None \<Rightarrow> Inl UninitializedRead
         | Some v \<Rightarrow> Inr (v, s)))"

definition select_class ::
  "('r \<Rightarrow> 't) \<Rightarrow> ('s, 'u) enumerator \<Rightarrow> (('s, 'u, 'r, 't) select_enumerator, 't) enumerator" where
  "select_class convert P =
     \<lparr>deref = select_deref convert P, incr = select_incr P, to_bool = select_bool P\<rparr>"

section \<open>\<open>until_enumerator\<close>\<close>

text \<open>\<open>flag_\<close> is not assigned by the constructor: \<open>None\<close> until \<open>operator bool\<close> first computes it.\<close>

record ('s, 'a) until_enumerator =
  until_parent :: 's
  until_func :: "'a \<Rightarrow> bool"
  until_flag :: "bool option"
  until_flag_of_flag :: bool

definition until_ctor :: "'s \<Rightarrow> ('a \<Rightarrow> bool) \<Rightarrow> ('s, 'a) until_enumerator" where
  "until_ctor parent func =
     \<lparr>until_parent = parent, until_func = func, until_flag = None, until_flag_of_flag = False\<rparr>"

definition until_incr ::
  "('s, 'a) enumerator \<Rightarrow> ('s, 'a) until_enumerator \<Rightarrow> error + ('s, 'a) until_enumerator" where
  "until_incr P s =
     (case incr P (until_parent s) of
        Inl e \<Rightarrow> Inl e
      | Inr p \<Rightarrow> Inr (s\<lparr>until_parent := p, until_flag_of_flag := False\<rparr>))"

definition until_bool ::
  "('s, 'a) enumerator \<Rightarrow> ('s, 'a) until_enumerator \<Rightarrow> error + bool \<times> ('s, 'a) until_enumerator" where
  "until_bool P s =
     (case to_bool P (until_parent s) of
        Inl e \<Rightarrow> Inl e
      | Inr (b, p) \<Rightarrow>
          if \<not> b then Inr (False, s\<lparr>until_parent := p\<rparr>)
          else if \<not> until_flag_of_flag s then
            (case deref P p of
               Inl e \<Rightarrow> Inl e
             | Inr (x, p') \<Rightarrow>
                 Inr (\<not> until_func s x,
                      s\<lparr>until_parent := p', until_flag := Some (\<not> until_func s x),
                        until_flag_of_flag := True\<rparr>))
          else
            (case until_flag s of
               None \<Rightarrow> Inl UninitializedRead
             | Some f \<Rightarrow> Inr (f, s\<lparr>until_parent := p\<rparr>)))"

definition until_deref ::
  "('s, 'a) enumerator \<Rightarrow> ('s, 'a) until_enumerator \<Rightarrow> error + 'a \<times> ('s, 'a) until_enumerator" where
  "until_deref P s =
     (case deref P (until_parent s) of
        Inl e \<Rightarrow> Inl e
      | Inr (x, p) \<Rightarrow> Inr (x, s\<lparr>until_parent := p\<rparr>))"

definition until_class :: "('s, 'a) enumerator \<Rightarrow> (('s, 'a) until_enumerator, 'a) enumerator" where
  "until_class P = \<lparr>deref = until_deref P, incr = until_incr P, to_bool = until_bool P\<rparr>"

section \<open>\<open>where_enumerator\<close>\<close>

record ('s, 'a) where_enumerator =
  where_parent :: 's
  where_func :: "'a \<Rightarrow> bool"

text \<open>
  \<open>while (static_cast<bool>(parent_) && !func_( *parent_)) ++parent_;\<close> is the constructor's
  loop; \<open>operator++\<close>'s \<open>do ++parent_; while (...)\<close> is one \<open>++parent_\<close> followed by the same loop.
\<close>

partial_function (option) where_loop ::
  "('s, 'a) enumerator \<Rightarrow> ('a \<Rightarrow> bool) \<Rightarrow> 's \<Rightarrow> (error + 's) option" where
  "where_loop P func p =
     (case to_bool P p of
        Inl e \<Rightarrow> Some (Inl e)
      | Inr (b, p1) \<Rightarrow>
          if \<not> b then Some (Inr p1)
          else (case deref P p1 of
                  Inl e \<Rightarrow> Some (Inl e)
                | Inr (x, p2) \<Rightarrow>
                    if func x then Some (Inr p2)
                    else (case incr P p2 of
                            Inl e \<Rightarrow> Some (Inl e)
                          | Inr p3 \<Rightarrow> where_loop P func p3)))"

declare where_loop.simps [code]

definition where_ctor ::
  "('s, 'a) enumerator \<Rightarrow> 's \<Rightarrow> ('a \<Rightarrow> bool) \<Rightarrow> error + ('s, 'a) where_enumerator" where
  "where_ctor P parent func =
     (case returned (where_loop P func parent) of
        Inl e \<Rightarrow> Inl e
      | Inr p \<Rightarrow> Inr \<lparr>where_parent = p, where_func = func\<rparr>)"

definition where_incr ::
  "('s, 'a) enumerator \<Rightarrow> ('s, 'a) where_enumerator \<Rightarrow> error + ('s, 'a) where_enumerator" where
  "where_incr P s =
     (case incr P (where_parent s) of
        Inl e \<Rightarrow> Inl e
      | Inr p \<Rightarrow>
          (case returned (where_loop P (where_func s) p) of
             Inl e \<Rightarrow> Inl e
           | Inr p' \<Rightarrow> Inr (s\<lparr>where_parent := p'\<rparr>)))"

definition where_bool ::
  "('s, 'a) enumerator \<Rightarrow> ('s, 'a) where_enumerator \<Rightarrow> error + bool \<times> ('s, 'a) where_enumerator" where
  "where_bool P s =
     (case to_bool P (where_parent s) of
        Inl e \<Rightarrow> Inl e
      | Inr (b, p) \<Rightarrow> Inr (b, s\<lparr>where_parent := p\<rparr>))"

definition where_deref ::
  "('s, 'a) enumerator \<Rightarrow> ('s, 'a) where_enumerator \<Rightarrow> error + 'a \<times> ('s, 'a) where_enumerator" where
  "where_deref P s =
     (case deref P (where_parent s) of
        Inl e \<Rightarrow> Inl e
      | Inr (x, p) \<Rightarrow> Inr (x, s\<lparr>where_parent := p\<rparr>))"

definition where_class :: "('s, 'a) enumerator \<Rightarrow> (('s, 'a) where_enumerator, 'a) enumerator" where
  "where_class P = \<lparr>deref = where_deref P, incr = where_incr P, to_bool = where_bool P\<rparr>"

section \<open>The combinators of \<open>enumerator\<close>\<close>

text \<open>
  The functions of namespace \<open>linq\<close> carry the prefix \<open>linq_\<close>.
  Each combinator constructs the decorator on \<open>*this\<close>.  The constructors of drop and where
  already pull from the upstream, so these two can meet undefined behaviour.
\<close>

definition linq_take :: "('s, 'a) obj \<Rightarrow> int \<Rightarrow> ('s take_enumerator, 'a) obj" where
  "linq_take c amount = (take_class (fst c), take_ctor (snd c) amount)"

definition linq_drop :: "('s, 'a) obj \<Rightarrow> int \<Rightarrow> error + ('s drop_enumerator, 'a) obj" where
  "linq_drop c amount =
     (case drop_ctor (fst c) (snd c) amount of
        Inl e \<Rightarrow> Inl e
      | Inr s \<Rightarrow> Inr (drop_class (fst c), s))"

text \<open>
  \<open>select<U>(func)\<close>: \<open>convert\<close> is the conversion from the result type of \<open>func\<close> to \<open>U\<close>.  For
  \<open>select(func)\<close>, \<open>U\<close> is the element type of \<open>*this\<close> (\<open>'t = 'u\<close>).
\<close>

definition linq_select ::
  "('s, 'u) obj \<Rightarrow> ('r \<Rightarrow> 't) \<Rightarrow> ('u \<Rightarrow> 'r) \<Rightarrow> (('s, 'u, 'r, 't) select_enumerator, 't) obj" where
  "linq_select c convert func = (select_class convert (fst c), select_ctor (snd c) func)"

definition linq_until ::
  "('s, 'a) obj \<Rightarrow> ('a \<Rightarrow> bool) \<Rightarrow> (('s, 'a) until_enumerator, 'a) obj" where
  "linq_until c func = (until_class (fst c), until_ctor (snd c) func)"

definition linq_where ::
  "('s, 'a) obj \<Rightarrow> ('a \<Rightarrow> bool) \<Rightarrow> error + (('s, 'a) where_enumerator, 'a) obj" where
  "linq_where c func =
     (case where_ctor (fst c) (snd c) func of
        Inl e \<Rightarrow> Inl e
      | Inr s \<Rightarrow> Inr (where_class (fst c), s))"

definition linq_until_eq :: "('s, 'a) obj \<Rightarrow> 'a \<Rightarrow> (('s, 'a) until_enumerator, 'a) obj" where
  "linq_until_eq c v = linq_until c (\<lambda>elem. elem = v)"

definition linq_where_neq ::
  "('s, 'a) obj \<Rightarrow> 'a \<Rightarrow> error + (('s, 'a) where_enumerator, 'a) obj" where
  "linq_where_neq c v = linq_where c (\<lambda>elem. elem \<noteq> v)"

text \<open>Chaining a call on the result of a combinator that may already have failed.\<close>

definition and_then :: "error + 'a \<Rightarrow> ('a \<Rightarrow> error + 'b) \<Rightarrow> error + 'b" where
  "and_then r k = (case r of Inl e \<Rightarrow> Inl e | Inr v \<Rightarrow> k v)"

section \<open>Specification vocabulary\<close>

subsection \<open>The sequence a cursor presents\<close>

text \<open>
  \<open>refines E I \<alpha>\<close>: in every state satisfying \<open>I\<close>, an object of class \<open>E\<close> behaves as a cursor
  over the list \<open>\<alpha> s\<close>.  \<open>operator bool\<close> tells whether the list is non-empty; on a non-empty list
  \<open>operator*\<close> returns its head and \<open>operator++\<close> moves to its tail; no call meets undefined
  behaviour, and \<open>I\<close> is kept.  Nothing is said about \<open>operator*\<close> and \<open>operator++\<close> on an empty list.
\<close>
definition refines :: "('s, 'a) enumerator \<Rightarrow> ('s \<Rightarrow> bool) \<Rightarrow> ('s \<Rightarrow> 'a list) \<Rightarrow> bool" where
  "refines E I \<alpha> \<longleftrightarrow>
     (\<forall>s. I s \<longrightarrow>
        (\<exists>s'. to_bool E s = Inr (\<alpha> s \<noteq> [], s') \<and> I s' \<and> \<alpha> s' = \<alpha> s) \<and>
        (\<alpha> s \<noteq> [] \<longrightarrow>
           (\<exists>s'. deref E s = Inr (hd (\<alpha> s), s') \<and> I s' \<and> \<alpha> s' = \<alpha> s) \<and>
           (\<exists>s'. incr E s = Inr s' \<and> I s' \<and> \<alpha> s' = tl (\<alpha> s))))"

text \<open>
  A source cursor in a well-formed state presents the elements from \<open>begin_\<close> up to \<open>end_\<close>.
\<close>
definition range_inv :: "'a range_enumerator \<Rightarrow> bool" where
  "range_inv r \<longleftrightarrow> range_begin r \<le> range_end r \<and> range_end r \<le> length (range_coll r)"

definition range_rest :: "'a range_enumerator \<Rightarrow> 'a list" where
  "range_rest r = drop (range_begin r) (take (range_end r) (range_coll r))"

text \<open>What the decorators present, given what the upstream presents (\<open>\<alpha>\<close>).\<close>
definition take_rest :: "('s \<Rightarrow> 'a list) \<Rightarrow> 's take_enumerator \<Rightarrow> 'a list" where
  "take_rest \<alpha> s = take (nat (take_amount s)) (\<alpha> (take_parent s))"

text \<open>
  The memo of the until cursor is consistent: when \<open>flag_of_flag_\<close> is set, \<open>flag_\<close> holds the negated
  predicate of the upstream's current element.
\<close>
definition until_inv ::
  "('s \<Rightarrow> bool) \<Rightarrow> ('s \<Rightarrow> 'a list) \<Rightarrow> ('s, 'a) until_enumerator \<Rightarrow> bool" where
  "until_inv I \<alpha> s \<longleftrightarrow>
     I (until_parent s) \<and>
     (until_flag_of_flag s \<longrightarrow>
        \<alpha> (until_parent s) \<noteq> [] \<and>
        until_flag s = Some (\<not> until_func s (hd (\<alpha> (until_parent s)))))"

definition until_rest :: "('s \<Rightarrow> 'a list) \<Rightarrow> ('s, 'a) until_enumerator \<Rightarrow> 'a list" where
  "until_rest \<alpha> s = takeWhile (\<lambda>x. \<not> until_func s x) (\<alpha> (until_parent s))"

text \<open>The where cursor rests on an element that satisfies the predicate, or on the end.\<close>
definition where_inv ::
  "('s \<Rightarrow> bool) \<Rightarrow> ('s \<Rightarrow> 'a list) \<Rightarrow> ('s, 'a) where_enumerator \<Rightarrow> bool" where
  "where_inv I \<alpha> s \<longleftrightarrow>
     I (where_parent s) \<and>
     (\<alpha> (where_parent s) \<noteq> [] \<longrightarrow> where_func s (hd (\<alpha> (where_parent s))))"

definition where_rest :: "('s \<Rightarrow> 'a list) \<Rightarrow> ('s, 'a) where_enumerator \<Rightarrow> 'a list" where
  "where_rest \<alpha> s = filter (where_func s) (\<alpha> (where_parent s))"

text \<open>A source cursor over the whole of \<open>xs\<close>, at any position.\<close>
definition range_on :: "'a list \<Rightarrow> 'a range_enumerator \<Rightarrow> bool" where
  "range_on xs r \<longleftrightarrow> range_coll r = xs \<and> range_end r = length xs"

text \<open>
  \<open>where_settled\<close>: \<open>operator bool\<close> returns false, or \<open>operator*\<close> then returns an element that satisfies
  the predicate.  \<open>range_settled\<close> says the same of the source state underneath.
\<close>
definition where_settled :: "('s, 'a) enumerator \<Rightarrow> ('s, 'a) where_enumerator \<Rightarrow> bool" where
  "where_settled P s \<longleftrightarrow>
     (case to_bool (where_class P) s of
        Inl e \<Rightarrow> False
      | Inr (b, s1) \<Rightarrow>
          \<not> b \<or> (case deref (where_class P) s1 of
                    Inl e \<Rightarrow> False
                  | Inr (x, s2) \<Rightarrow> where_func s x))"

definition range_settled :: "('a \<Rightarrow> bool) \<Rightarrow> 'a range_enumerator \<Rightarrow> bool" where
  "range_settled f r \<longleftrightarrow>
     range_begin r = range_end r \<or>
     (range_begin r < length (range_coll r) \<and> f (range_coll r ! range_begin r))"


subsection \<open>Sequences of calls\<close>

text \<open>
  A caller may issue \<open>valid()\<close>, \<open>current()\<close> and \<open>advance()\<close> in any order.  \<open>run\<close> performs a list of
  calls and returns what happened: the answer of each \<open>valid()\<close>, and a mark for each \<open>current()\<close>
  and \<open>advance()\<close>.  It stops with the error at the first call that meets undefined behaviour.
\<close>
datatype call = Valid | Current | Advance

datatype event = Returned bool | Read | Moved

definition step :: "('s, 'a) enumerator \<Rightarrow> call \<Rightarrow> 's \<Rightarrow> error + event \<times> 's" where
  "step E c s =
     (case c of
        Valid \<Rightarrow> (case to_bool E s of Inl e \<Rightarrow> Inl e | Inr (b, s1) \<Rightarrow> Inr (Returned b, s1))
      | Current \<Rightarrow> (case deref E s of Inl e \<Rightarrow> Inl e | Inr (x, s1) \<Rightarrow> Inr (Read, s1))
      | Advance \<Rightarrow> (case incr E s of Inl e \<Rightarrow> Inl e | Inr s1 \<Rightarrow> Inr (Moved, s1)))"

fun run :: "('s, 'a) enumerator \<Rightarrow> call list \<Rightarrow> 's \<Rightarrow> error + event list \<times> 's" where
  "run E [] s = Inr ([], s)"
| "run E (c # cs) s =
     (case step E c s of
        Inl e \<Rightarrow> Inl e
      | Inr (ev, s1) \<Rightarrow>
          (case run E cs s1 of
             Inl e \<Rightarrow> Inl e
           | Inr (tr, s2) \<Rightarrow> Inr (ev # tr, s2)))"

text \<open>
  \<open>stays_invalid Forever tr\<close>: after a \<open>valid()\<close> that returned false, no later \<open>valid()\<close> in \<open>tr\<close>
  returns true.  \<open>stays_invalid Until_Advance tr\<close>: the same for the \<open>valid()\<close> calls up to the next
  \<open>advance()\<close>.
\<close>
datatype scope = Forever | Until_Advance

fun span :: "scope \<Rightarrow> event list \<Rightarrow> event list" where
  "span Forever tr = tr"
| "span Until_Advance tr = takeWhile (\<lambda>e. e \<noteq> Moved) tr"

fun stays_invalid :: "scope \<Rightarrow> event list \<Rightarrow> bool" where
  "stays_invalid w [] = True"
| "stays_invalid w (e # tr) =
     ((e = Returned False \<longrightarrow> Returned True \<notin> set (span w tr)) \<and> stays_invalid w tr)"

text \<open>
  \<open>single_pass w E s\<close>: every sequence of calls on an object of class \<open>E\<close> in state \<open>s\<close> that
  returns has the property.  \<open>exhausted w E s\<close>: in state \<open>s\<close> no \<open>valid()\<close> returns true any more (up
  to the next \<open>advance()\<close>, for \<open>Until_Advance\<close>).  \<open>keeps w c\<close>: the call \<open>c\<close> is within the scope \<open>w\<close>.
\<close>
definition single_pass :: "scope \<Rightarrow> ('s, 'a) enumerator \<Rightarrow> 's \<Rightarrow> bool" where
  "single_pass w E s \<longleftrightarrow> (\<forall>cs tr s'. run E cs s = Inr (tr, s') \<longrightarrow> stays_invalid w tr)"

definition exhausted :: "scope \<Rightarrow> ('s, 'a) enumerator \<Rightarrow> 's \<Rightarrow> bool" where
  "exhausted w E s \<longleftrightarrow> (\<forall>cs tr s'. run E cs s = Inr (tr, s') \<longrightarrow> Returned True \<notin> set (span w tr))"

definition keeps :: "scope \<Rightarrow> call \<Rightarrow> bool" where
  "keeps w c \<longleftrightarrow> w = Forever \<or> c \<noteq> Advance"

section \<open>Cursors as sequences\<close>

text \<open>
  Each class is shown to present a list: the source presents its range, and every decorator
  presents a function of what its upstream presents.  \<open>to_vector\<close> returns the presented list.
\<close>

lemma refinesD_bool:
  "refines E I \<alpha> \<Longrightarrow> I s \<Longrightarrow> \<exists>s'. to_bool E s = Inr (\<alpha> s \<noteq> [], s') \<and> I s' \<and> \<alpha> s' = \<alpha> s"
  by (simp add: refines_def)

lemma refinesD_deref:
  "refines E I \<alpha> \<Longrightarrow> I s \<Longrightarrow> \<alpha> s \<noteq> [] \<Longrightarrow>
     \<exists>s'. deref E s = Inr (hd (\<alpha> s), s') \<and> I s' \<and> \<alpha> s' = \<alpha> s"
  by (simp add: refines_def)

lemma refinesD_incr:
  "refines E I \<alpha> \<Longrightarrow> I s \<Longrightarrow> \<alpha> s \<noteq> [] \<Longrightarrow>
     \<exists>s'. incr E s = Inr s' \<and> I s' \<and> \<alpha> s' = tl (\<alpha> s)"
  by (simp add: refines_def)

lemma to_vector_loop_refines:
  assumes R: "refines E I \<alpha>"
  shows "I s \<Longrightarrow> \<alpha> s = xs \<Longrightarrow>
    \<exists>s'. to_vector_loop E acc s = Some (Inr (acc @ xs, s')) \<and> I s' \<and> \<alpha> s' = []"
proof (induction xs arbitrary: s acc)
  case Nil
  from refinesD_bool [OF R Nil(1)] Nil(2)
  obtain s1 where "to_bool E s = Inr (False, s1)" "I s1" "\<alpha> s1 = []" by auto
  then show ?case by (subst to_vector_loop.simps) simp
next
  case (Cons x xs)
  from refinesD_bool [OF R Cons(2)] Cons(3)
  obtain s1 where s1: "to_bool E s = Inr (True, s1)" "I s1" "\<alpha> s1 = x # xs" by auto
  from refinesD_deref [OF R s1(2)] s1(3)
  obtain s2 where s2: "deref E s1 = Inr (x, s2)" "I s2" "\<alpha> s2 = x # xs" by auto
  from refinesD_incr [OF R s2(2)] s2(3)
  obtain s3 where s3: "incr E s2 = Inr s3" "I s3" "\<alpha> s3 = xs" by auto
  from Cons.IH [OF s3(2) s3(3), of "acc @ [x]"]
  obtain s' where "to_vector_loop E (acc @ [x]) s3 = Some (Inr ((acc @ [x]) @ xs, s'))" "I s'" "\<alpha> s' = []"
    by blast
  with s1 s2 s3 show ?case by (subst to_vector_loop.simps) simp
qed

lemma refines_range: "refines range_class range_inv range_rest"
  unfolding refines_def range_class_def range_inv_def range_rest_def
  by (auto simp: range_bool_def range_deref_def range_incr_def hd_drop_conv_nth drop_Suc tl_drop)

lemma refines_strengthen:
  assumes R: "refines E I \<alpha>"
    and b: "\<And>s b s'. I s \<Longrightarrow> J s \<Longrightarrow> to_bool E s = Inr (b, s') \<Longrightarrow> J s'"
    and d: "\<And>s x s'. I s \<Longrightarrow> J s \<Longrightarrow> \<alpha> s \<noteq> [] \<Longrightarrow> deref E s = Inr (x, s') \<Longrightarrow> J s'"
    and i: "\<And>s s'. I s \<Longrightarrow> J s \<Longrightarrow> \<alpha> s \<noteq> [] \<Longrightarrow> incr E s = Inr s' \<Longrightarrow> J s'"
  shows "refines E (\<lambda>s. I s \<and> J s) \<alpha>"
  unfolding refines_def
proof (intro allI impI conjI)
  fix s assume IJ: "I s \<and> J s"
  from refinesD_bool [OF R] IJ b
  show "\<exists>s'. to_bool E s = Inr (\<alpha> s \<noteq> [], s') \<and> (I s' \<and> J s') \<and> \<alpha> s' = \<alpha> s"
    by blast
next
  fix s assume IJ: "I s \<and> J s" and ne: "\<alpha> s \<noteq> []"
  from refinesD_deref [OF R _ ne] IJ d ne
  show "\<exists>s'. deref E s = Inr (hd (\<alpha> s), s') \<and> (I s' \<and> J s') \<and> \<alpha> s' = \<alpha> s"
    by blast
next
  fix s assume IJ: "I s \<and> J s" and ne: "\<alpha> s \<noteq> []"
  from refinesD_incr [OF R _ ne] IJ i ne
  show "\<exists>s'. incr E s = Inr s' \<and> (I s' \<and> J s') \<and> \<alpha> s' = tl (\<alpha> s)"
    by blast
qed

lemma refines_take:
  assumes R: "refines P I \<alpha>"
  shows "refines (take_class P) (\<lambda>s. I (take_parent s)) (take_rest \<alpha>)"
  unfolding refines_def
proof (intro allI impI conjI)
  fix s :: "'a take_enumerator" assume I: "I (take_parent s)"
  from refinesD_bool [OF R I] I
  show "\<exists>s'. to_bool (take_class P) s = Inr (take_rest \<alpha> s \<noteq> [], s') \<and> I (take_parent s') \<and>
          take_rest \<alpha> s' = take_rest \<alpha> s"
    by (auto simp: take_class_def take_bool_def take_rest_def)
next
  fix s :: "'a take_enumerator" assume I: "I (take_parent s)" and ne: "take_rest \<alpha> s \<noteq> []"
  then have pne: "\<alpha> (take_parent s) \<noteq> []" and pos: "0 < take_amount s"
    by (auto simp: take_rest_def)
  from refinesD_deref [OF R I pne] pos
  show "\<exists>s'. deref (take_class P) s = Inr (hd (take_rest \<alpha> s), s') \<and> I (take_parent s') \<and>
          take_rest \<alpha> s' = take_rest \<alpha> s"
    by (auto simp: take_class_def take_deref_def take_rest_def)
next
  fix s :: "'a take_enumerator" assume I: "I (take_parent s)" and ne: "take_rest \<alpha> s \<noteq> []"
  then have pne: "\<alpha> (take_parent s) \<noteq> []" and pos: "0 < take_amount s"
    by (auto simp: take_rest_def)
  from pos have n: "nat (take_amount s - 1) = nat (take_amount s) - 1" by simp
  from refinesD_incr [OF R I pne] pos
  show "\<exists>s'. incr (take_class P) s = Inr s' \<and> I (take_parent s') \<and>
          take_rest \<alpha> s' = tl (take_rest \<alpha> s)"
    by (auto simp: take_class_def take_incr_def take_rest_def INT_MIN_def n tl_take)
qed

lemma refines_drop:
  assumes R: "refines P I \<alpha>"
  shows "refines (drop_class P) (\<lambda>s. I (drop_parent s)) (\<lambda>s. \<alpha> (drop_parent s))"
  unfolding refines_def
proof (intro allI impI conjI)
  fix s :: "'a drop_enumerator" assume I: "I (drop_parent s)"
  from refinesD_bool [OF R I]
  show "\<exists>s'. to_bool (drop_class P) s = Inr (\<alpha> (drop_parent s) \<noteq> [], s') \<and> I (drop_parent s') \<and>
          \<alpha> (drop_parent s') = \<alpha> (drop_parent s)"
    by (auto simp: drop_class_def drop_bool_def)
next
  fix s :: "'a drop_enumerator" assume I: "I (drop_parent s)" and ne: "\<alpha> (drop_parent s) \<noteq> []"
  from refinesD_deref [OF R I ne]
  show "\<exists>s'. deref (drop_class P) s = Inr (hd (\<alpha> (drop_parent s)), s') \<and> I (drop_parent s') \<and>
          \<alpha> (drop_parent s') = \<alpha> (drop_parent s)"
    by (auto simp: drop_class_def drop_deref_def)
next
  fix s :: "'a drop_enumerator" assume I: "I (drop_parent s)" and ne: "\<alpha> (drop_parent s) \<noteq> []"
  from refinesD_incr [OF R I ne]
  show "\<exists>s'. incr (drop_class P) s = Inr s' \<and> I (drop_parent s') \<and>
          \<alpha> (drop_parent s') = tl (\<alpha> (drop_parent s))"
    by (auto simp: drop_class_def drop_incr_def)
qed

lemma drop_loop_refines:
  "refines P I \<alpha> \<Longrightarrow> I p \<Longrightarrow>
     \<exists>p'. drop_loop P i amount p = Inr p' \<and> I p' \<and> \<alpha> p' = drop (nat (amount - i)) (\<alpha> p)"
proof (induction P i amount p rule: drop_loop.induct)
  case (1 P i amount p)
  note R = \<open>refines P I \<alpha>\<close> and Ip = \<open>I p\<close>
  show ?case
  proof (cases "i < amount")
    case False
    with Ip show ?thesis by (subst drop_loop.simps) simp
  next
    case lt: True
    from refinesD_bool [OF R Ip]
    obtain p1 where p1: "to_bool P p = Inr (\<alpha> p \<noteq> [], p1)" "I p1" "\<alpha> p1 = \<alpha> p" by blast
    show ?thesis
    proof (cases "\<alpha> p = []")
      case True
      with lt p1 show ?thesis by (subst drop_loop.simps) simp
    next
      case ne: False
      with p1 have ne1: "\<alpha> p1 \<noteq> []" by simp
      from refinesD_incr [OF R p1(2) ne1]
      obtain p2 where p2: "incr P p1 = Inr p2" "I p2" "\<alpha> p2 = tl (\<alpha> p1)" by blast
      from "1.IH" [OF lt p1(1) refl _ p2(1) R p2(2)] ne
      obtain p' where p': "drop_loop P (i + 1) amount p2 = Inr p'" "I p'"
        "\<alpha> p' = drop (nat (amount - (i + 1))) (\<alpha> p2)" by auto
      from lt have "nat (amount - i) = Suc (nat (amount - (i + 1)))" by simp
      with p' p2 p1 ne have "\<alpha> p' = drop (nat (amount - i)) (\<alpha> p)"
        by (simp add: drop_Suc)
      with lt p1 p2 p' ne show ?thesis by (subst drop_loop.simps) simp
    qed
  qed
qed

lemma to_vector_loop_select:
  assumes R: "refines P I \<alpha>"
  shows "I (select_parent s) \<Longrightarrow> select_flag s \<Longrightarrow> \<alpha> (select_parent s) = us \<Longrightarrow>
    \<exists>s'. to_vector_loop (select_class cv P) acc s =
           Some (Inr (acc @ map (\<lambda>u. cv (select_func s u)) us, s')) \<and>
         select_calls s' = select_calls s @ us \<and> I (select_parent s') \<and> \<alpha> (select_parent s') = []"
proof (induction us arbitrary: s acc)
  case Nil
  from refinesD_bool [OF R Nil(1)] Nil(3)
  obtain p1 where "to_bool P (select_parent s) = Inr (False, p1)" "I p1" "\<alpha> p1 = []" by auto
  then show ?case
    by (subst to_vector_loop.simps) (simp add: select_class_def select_bool_def)
next
  case (Cons u us)
  from refinesD_bool [OF R Cons(2)] Cons(4)
  obtain p1 where p1: "to_bool P (select_parent s) = Inr (True, p1)" "I p1" "\<alpha> p1 = u # us" by auto
  from refinesD_deref [OF R p1(2)] p1(3)
  obtain p2 where p2: "deref P p1 = Inr (u, p2)" "I p2" "\<alpha> p2 = u # us" by auto
  from refinesD_incr [OF R p2(2)] p2(3)
  obtain p3 where p3: "incr P p2 = Inr p3" "I p3" "\<alpha> p3 = us" by auto
  let ?v = "cv (select_func s u)"
  let ?s2 = "s\<lparr>select_parent := p2, select_value := Some ?v,
                select_flag := False, select_calls := select_calls s @ [u]\<rparr>"
  let ?s3 = "?s2\<lparr>select_parent := p3, select_flag := True\<rparr>"
  have "I (select_parent ?s3)" "select_flag ?s3" "\<alpha> (select_parent ?s3) = us"
    using p3 by simp_all
  from Cons.IH [OF this, of "acc @ [?v]"]
  obtain s' where s': "to_vector_loop (select_class cv P) (acc @ [?v]) ?s3 =
       Some (Inr ((acc @ [?v]) @ map (\<lambda>u. cv (select_func s u)) us, s'))"
     "select_calls s' = (select_calls s @ [u]) @ us" "I (select_parent s')" "\<alpha> (select_parent s') = []"
    by auto
  have "to_vector_loop (select_class cv P) acc s =
        to_vector_loop (select_class cv P) (acc @ [?v]) ?s3"
    using p1 p2 p3 Cons(3)
    by (subst to_vector_loop.simps)
       (simp add: select_class_def select_bool_def select_deref_def select_incr_def)
  with s' show ?case by simp
qed

lemma until_rest_ne:
  "until_rest \<alpha> s \<noteq> [] \<longleftrightarrow> \<alpha> (until_parent s) \<noteq> [] \<and> \<not> until_func s (hd (\<alpha> (until_parent s)))"
  by (cases "\<alpha> (until_parent s)") (simp_all add: until_rest_def)

lemma until_rest_hd: "until_rest \<alpha> s \<noteq> [] \<Longrightarrow> hd (until_rest \<alpha> s) = hd (\<alpha> (until_parent s))"
  by (cases "\<alpha> (until_parent s)") (simp_all add: until_rest_def split: if_splits)

lemma until_rest_tl:
  "until_rest \<alpha> s \<noteq> [] \<Longrightarrow>
   tl (until_rest \<alpha> s) = takeWhile (\<lambda>x. \<not> until_func s x) (tl (\<alpha> (until_parent s)))"
  by (cases "\<alpha> (until_parent s)") (simp_all add: until_rest_def split: if_splits)

lemma refines_until:
  assumes R: "refines P I \<alpha>"
  shows "refines (until_class P) (until_inv I \<alpha>) (until_rest \<alpha>)"
  unfolding refines_def
proof (intro allI impI conjI)
  fix s :: "('a, 'b) until_enumerator" assume inv: "until_inv I \<alpha> s"
  then have I: "I (until_parent s)" by (simp add: until_inv_def)
  from refinesD_bool [OF R I]
  obtain p1 where p1: "to_bool P (until_parent s) = Inr (\<alpha> (until_parent s) \<noteq> [], p1)" "I p1"
    "\<alpha> p1 = \<alpha> (until_parent s)" by blast
  show "\<exists>s'. to_bool (until_class P) s = Inr (until_rest \<alpha> s \<noteq> [], s') \<and>
          until_inv I \<alpha> s' \<and> until_rest \<alpha> s' = until_rest \<alpha> s"
  proof (cases "\<alpha> (until_parent s) = []")
    case True
    with p1 inv show ?thesis
      by (auto simp: until_class_def until_bool_def until_rest_def until_inv_def)
  next
    case ne: False
    with p1 have "\<alpha> p1 \<noteq> []" by simp
    from refinesD_deref [OF R p1(2) this] p1(3)
    obtain p2 where p2: "deref P p1 = Inr (hd (\<alpha> (until_parent s)), p2)" "I p2"
      "\<alpha> p2 = \<alpha> (until_parent s)" by auto
    from ne p1 p2 inv show ?thesis
      by (auto simp: until_class_def until_bool_def until_rest_ne until_inv_def)
         (simp_all add: until_rest_def)
  qed
next
  fix s :: "('a, 'b) until_enumerator"
  assume inv: "until_inv I \<alpha> s" and ne: "until_rest \<alpha> s \<noteq> []"
  then have I: "I (until_parent s)" and pne: "\<alpha> (until_parent s) \<noteq> []"
    by (simp_all add: until_inv_def until_rest_ne)
  from refinesD_deref [OF R I pne] inv pne
  show "\<exists>s'. deref (until_class P) s = Inr (hd (until_rest \<alpha> s), s') \<and>
          until_inv I \<alpha> s' \<and> until_rest \<alpha> s' = until_rest \<alpha> s"
    by (auto simp: until_class_def until_deref_def until_rest_hd [OF ne] until_inv_def)
       (simp_all add: until_rest_def)
next
  fix s :: "('a, 'b) until_enumerator"
  assume inv: "until_inv I \<alpha> s" and ne: "until_rest \<alpha> s \<noteq> []"
  then have I: "I (until_parent s)" and pne: "\<alpha> (until_parent s) \<noteq> []"
    by (simp_all add: until_inv_def until_rest_ne)
  from refinesD_incr [OF R I pne]
  show "\<exists>s'. incr (until_class P) s = Inr s' \<and>
          until_inv I \<alpha> s' \<and> until_rest \<alpha> s' = tl (until_rest \<alpha> s)"
    by (auto simp: until_class_def until_incr_def until_rest_tl [OF ne] until_inv_def)
       (simp_all add: until_rest_def)
qed

lemma where_loop_refines:
  assumes R: "refines P I \<alpha>"
  shows "I p \<Longrightarrow> \<alpha> p = xs \<Longrightarrow>
    \<exists>p'. where_loop P f p = Some (Inr p') \<and> I p' \<and> \<alpha> p' = dropWhile (\<lambda>x. \<not> f x) xs"
proof (induction xs arbitrary: p)
  case Nil
  from refinesD_bool [OF R Nil(1)] Nil(2)
  obtain p1 where "to_bool P p = Inr (False, p1)" "I p1" "\<alpha> p1 = []" by auto
  then show ?case by (subst where_loop.simps) simp
next
  case (Cons x xs)
  from refinesD_bool [OF R Cons(2)] Cons(3)
  obtain p1 where p1: "to_bool P p = Inr (True, p1)" "I p1" "\<alpha> p1 = x # xs" by auto
  from refinesD_deref [OF R p1(2)] p1(3)
  obtain p2 where p2: "deref P p1 = Inr (x, p2)" "I p2" "\<alpha> p2 = x # xs" by auto
  show ?case
  proof (cases "f x")
    case True
    with p1 p2 show ?thesis by (subst where_loop.simps) simp
  next
    case False
    from refinesD_incr [OF R p2(2)] p2(3)
    obtain p3 where p3: "incr P p2 = Inr p3" "I p3" "\<alpha> p3 = xs" by auto
    from Cons.IH [OF p3(2) p3(3)] False p1 p2 p3 show ?thesis
      by (subst where_loop.simps) simp
  qed
qed

lemma hd_dropWhile_not: "dropWhile (\<lambda>x. \<not> f x) xs \<noteq> [] \<Longrightarrow> f (hd (dropWhile (\<lambda>x. \<not> f x) xs))"
  using hd_dropWhile [of "\<lambda>x. \<not> f x" xs] by simp

lemma filter_dropWhile_not: "filter f (dropWhile (\<lambda>x. \<not> f x) xs) = filter f xs"
  by (induction xs) simp_all

lemma where_ctor_refines:
  assumes R: "refines P I \<alpha>" and I: "I p"
  shows "\<exists>s. where_ctor P p f = Inr s \<and> where_inv I \<alpha> s \<and> where_rest \<alpha> s = filter f (\<alpha> p)"
proof -
  from where_loop_refines [OF R I refl, of f]
  obtain p' where p': "where_loop P f p = Some (Inr p')" "I p'"
    "\<alpha> p' = dropWhile (\<lambda>x. \<not> f x) (\<alpha> p)" by blast
  then show ?thesis
    by (simp add: where_ctor_def returned_def where_inv_def where_rest_def
                  hd_dropWhile_not filter_dropWhile_not)
qed

lemma refines_where:
  assumes R: "refines P I \<alpha>"
  shows "refines (where_class P) (where_inv I \<alpha>) (where_rest \<alpha>)"
  unfolding refines_def
proof (intro allI impI conjI)
  fix s :: "('a, 'b) where_enumerator" assume inv: "where_inv I \<alpha> s"
  then have I: "I (where_parent s)" by (simp add: where_inv_def)
  from refinesD_bool [OF R I] inv
  show "\<exists>s'. to_bool (where_class P) s = Inr (where_rest \<alpha> s \<noteq> [], s') \<and>
          where_inv I \<alpha> s' \<and> where_rest \<alpha> s' = where_rest \<alpha> s"
    by (cases "\<alpha> (where_parent s)")
       (auto simp: where_class_def where_bool_def where_rest_def where_inv_def)
next
  fix s :: "('a, 'b) where_enumerator"
  assume inv: "where_inv I \<alpha> s" and ne: "where_rest \<alpha> s \<noteq> []"
  then have I: "I (where_parent s)" and pne: "\<alpha> (where_parent s) \<noteq> []"
    by (auto simp: where_inv_def where_rest_def)
  from refinesD_deref [OF R I pne] inv pne
  show "\<exists>s'. deref (where_class P) s = Inr (hd (where_rest \<alpha> s), s') \<and>
          where_inv I \<alpha> s' \<and> where_rest \<alpha> s' = where_rest \<alpha> s"
    by (cases "\<alpha> (where_parent s)")
       (auto simp: where_class_def where_deref_def where_rest_def where_inv_def)
next
  fix s :: "('a, 'b) where_enumerator"
  assume inv: "where_inv I \<alpha> s" and ne: "where_rest \<alpha> s \<noteq> []"
  then have I: "I (where_parent s)" and pne: "\<alpha> (where_parent s) \<noteq> []"
    by (auto simp: where_inv_def where_rest_def)
  from refinesD_incr [OF R I pne]
  obtain p1 where p1: "incr P (where_parent s) = Inr p1" "I p1" "\<alpha> p1 = tl (\<alpha> (where_parent s))"
    by blast
  from where_loop_refines [OF R p1(2) refl, of "where_func s"]
  obtain p' where p': "where_loop P (where_func s) p1 = Some (Inr p')" "I p'"
    "\<alpha> p' = dropWhile (\<lambda>x. \<not> where_func s x) (\<alpha> p1)" by blast
  from inv pne have "tl (where_rest \<alpha> s) = filter (where_func s) (tl (\<alpha> (where_parent s)))"
    by (cases "\<alpha> (where_parent s)") (auto simp: where_rest_def where_inv_def)
  with p1 p'
  show "\<exists>s'. incr (where_class P) s = Inr s' \<and>
          where_inv I \<alpha> s' \<and> where_rest \<alpha> s' = tl (where_rest \<alpha> s)"
    by (simp add: where_class_def where_incr_def returned_def where_inv_def where_rest_def
                  hd_dropWhile_not filter_dropWhile_not)
qed

lemma range_on_step:
  "range_on xs r \<Longrightarrow> to_bool range_class r = Inr (b, r') \<Longrightarrow> range_on xs r'"
  "range_on xs r \<Longrightarrow> deref range_class r = Inr (x, r') \<Longrightarrow> range_on xs r'"
  "range_on xs r \<Longrightarrow> incr range_class r = Inr r' \<Longrightarrow> range_on xs r'"
  by (auto simp: range_on_def range_class_def range_bool_def range_deref_def range_incr_def
           split: if_splits)

lemma from_all_simps:
  "fst (from_all xs) = range_class"
  "range_inv (snd (from_all xs))"
  "range_on xs (snd (from_all xs))"
  "range_rest (snd (from_all xs)) = xs"
  "range_begin (snd (from_all xs)) = 0"
  by (simp_all add: from_all_def linq_from_def range_inv_def range_on_def range_rest_def)

lemma range_on_eq:
  "range_inv r \<Longrightarrow> range_on xs r \<Longrightarrow> range_rest r = drop n xs \<Longrightarrow>
   r = \<lparr>range_coll = xs, range_begin = min n (length xs), range_end = length xs\<rparr>"
proof -
  assume a: "range_inv r" "range_on xs r" "range_rest r = drop n xs"
  then have "length (drop (range_begin r) xs) = length (drop n xs)"
    by (simp add: range_on_def range_rest_def)
  with a have "range_begin r = min n (length xs)"
    by (auto simp: range_inv_def range_on_def)
  with a show ?thesis by (cases r) (simp add: range_on_def)
qed

lemma take_min_length: "take (min n (length xs)) xs = take n xs"
  by (simp add: min_def)

lemma drop_min_length: "drop (min n (length xs)) xs = drop n xs"
  by (simp add: min_def)

lemma where_loop_returns_induct [consumes 1, case_names invalid found step]:
  assumes run: "where_loop P f p = Some (Inr p')"
    and invalid: "\<And>p p1. to_bool P p = Inr (False, p1) \<Longrightarrow> Q p p1"
    and found: "\<And>p p1 x p2. to_bool P p = Inr (True, p1) \<Longrightarrow> deref P p1 = Inr (x, p2) \<Longrightarrow> f x \<Longrightarrow> Q p p2"
    and step: "\<And>p p1 x p2 p3 p'. to_bool P p = Inr (True, p1) \<Longrightarrow> deref P p1 = Inr (x, p2) \<Longrightarrow>
                 \<not> f x \<Longrightarrow> incr P p2 = Inr p3 \<Longrightarrow> Q p3 p' \<Longrightarrow> Q p p'"
  shows "Q p p'"
proof -
  define R where "R = (\<lambda>a (y :: error + 'a). fst (fst a) = P \<longrightarrow> snd (fst a) = f \<longrightarrow> (\<forall>q'. y = Inr q' \<longrightarrow> Q (snd a) q'))"
  have "R ((P, f), p) (Inr p')"
  proof (rule where_loop.raw_induct [where Pa = R, OF _ run], goal_cases)
    case (1 wl P' f' q y)
    show ?case
      unfolding R_def
    proof (clarsimp)
      fix q' assume y: "y = Inr q'" and P: "P' = P" and f: "f' = f"
      note body = 1(2) [unfolded y P f]
      have IH: "Q p3 q'" if "wl P f p3 = Some (Inr q')" for p3
        using 1(1) [OF that] by (simp add: R_def)
      show "Q q q'"
      proof (cases "to_bool P q")
        case (Inl e) with body show ?thesis by simp
      next
        case (Inr bp)
        then obtain b p1 where bp: "to_bool P q = Inr (b, p1)" by (cases bp) auto
        show ?thesis
        proof (cases b)
          case False with bp body invalid show ?thesis by auto
        next
          case True
          show ?thesis
          proof (cases "deref P p1")
            case (Inl e) with bp True body show ?thesis by simp
          next
            case (Inr xp)
            then obtain x p2 where xp: "deref P p1 = Inr (x, p2)" by (cases xp) auto
            show ?thesis
            proof (cases "f x")
              case fx: True
              with bp True xp body found show ?thesis by auto
            next
              case nfx: False
              show ?thesis
              proof (cases "incr P p2")
                case (Inl e) with bp True xp nfx body show ?thesis by simp
              next
                case (Inr p3)
                with bp True xp nfx body have w: "wl P f p3 = Some (Inr q')" by simp
                from step [OF _ xp nfx Inr IH [OF w]] bp True show ?thesis by simp
              qed
            qed
          qed
        qed
      qed
    qed
  qed
  then show ?thesis by (simp add: R_def)
qed

lemma where_loop_range_settled:
  "where_loop range_class f r = Some (Inr r') \<Longrightarrow> range_settled f r'"
  by (induction rule: where_loop_returns_induct)
     (auto simp: range_class_def range_bool_def range_deref_def range_incr_def range_settled_def
           split: if_splits)

lemma range_settled_where:
  "range_settled (where_func s) (where_parent s) \<Longrightarrow> where_settled range_class s"
  by (auto simp: where_settled_def range_settled_def where_class_def where_bool_def where_deref_def
                 range_class_def range_bool_def range_deref_def)

lemma drop_ctor_nonpositive: "n \<le> 0 \<Longrightarrow> drop_ctor P p n = Inr \<lparr>drop_parent = p\<rparr>"
  by (simp add: drop_ctor_def drop_loop.simps)

section \<open>Cursors under arbitrary call sequences\<close>

text \<open>
  A class is shown to be single-pass by two sets of states: one kept by every call, and one
  that a \<open>valid()\<close> returning false leads into and in which no \<open>valid()\<close> returns true.  For a
  decorator both are read off the upstream: the decorator's calls are calls on the upstream.
\<close>

lemma step_event:
  "step E c s = Inr (ev, s1) \<Longrightarrow> (ev = Moved) = (c = Advance)"
  by (auto simp: step_def split: call.splits sum.splits)

lemma span_Cons: "keeps w c \<Longrightarrow> step E c s = Inr (ev, s1) \<Longrightarrow> span w (ev # tr) = ev # span w tr"
  by (cases w) (auto simp: keeps_def dest: step_event)

lemma single_pass_step:
  assumes "single_pass w E s" "step E c s = Inr (ev, s1)"
  shows "single_pass w E s1"
  unfolding single_pass_def
proof (intro allI impI)
  fix cs tr s' assume "run E cs s1 = Inr (tr, s')"
  with assms(2) have "run E (c # cs) s = Inr (ev # tr, s')" by simp
  with assms(1) have "stays_invalid w (ev # tr)" unfolding single_pass_def by blast
  then show "stays_invalid w tr" by simp
qed

lemma single_pass_exhausted:
  assumes "single_pass w E s" "step E Valid s = Inr (Returned False, s1)"
  shows "exhausted w E s1"
  unfolding exhausted_def
proof (intro allI impI)
  fix cs tr s' assume "run E cs s1 = Inr (tr, s')"
  with assms(2) have "run E (Valid # cs) s = Inr (Returned False # tr, s')" by simp
  with assms(1) have "stays_invalid w (Returned False # tr)" unfolding single_pass_def by blast
  then show "Returned True \<notin> set (span w tr)" by simp
qed

lemma exhausted_step:
  assumes "exhausted w E s" "step E c s = Inr (ev, s1)" "keeps w c"
  shows "exhausted w E s1 \<and> ev \<noteq> Returned True"
proof
  show "exhausted w E s1"
    unfolding exhausted_def
  proof (intro allI impI)
    fix cs tr s' assume "run E cs s1 = Inr (tr, s')"
    with assms(2) have "run E (c # cs) s = Inr (ev # tr, s')" by simp
    with assms(1) have "Returned True \<notin> set (span w (ev # tr))" unfolding exhausted_def by blast
    with span_Cons [OF assms(3,2)] show "Returned True \<notin> set (span w tr)" by simp
  qed
  from assms(2) have "run E [c] s = Inr ([ev], s1)" by simp
  with assms(1) have "Returned True \<notin> set (span w [ev])" unfolding exhausted_def by blast
  with span_Cons [OF assms(3,2), of "[]"] show "ev \<noteq> Returned True" by (cases w) auto
qed

lemma single_passI:
  assumes inv: "Inv s"
    and A2: "\<And>s c ev s1. Inv s \<Longrightarrow> step E c s = Inr (ev, s1) \<Longrightarrow> Inv s1"
    and A3: "\<And>s c ev s1. Dead s \<Longrightarrow> step E c s = Inr (ev, s1) \<Longrightarrow> keeps w c \<Longrightarrow>
               Dead s1 \<and> ev \<noteq> Returned True"
    and A4: "\<And>s s1. Inv s \<Longrightarrow> step E Valid s = Inr (Returned False, s1) \<Longrightarrow> Dead s1"
  shows "single_pass w E s"
proof -
  have dead: "Dead s \<Longrightarrow> run E cs s = Inr (tr, s') \<Longrightarrow> Returned True \<notin> set (span w tr)"
    for cs s tr s'
  proof (induction cs arbitrary: s tr)
    case Nil
    then show ?case by (cases w) auto
  next
    case (Cons c cs)
    from Cons.prems(2) obtain ev s1 tr1 where
      st: "step E c s = Inr (ev, s1)" and r: "run E cs s1 = Inr (tr1, s')" and tr: "tr = ev # tr1"
      by (auto split: sum.splits)
    show ?case
    proof (cases "keeps w c")
      case True
      from A3 [OF Cons.prems(1) st True] Cons.IH [OF _ r] span_Cons [OF True st, of tr1] tr
      show ?thesis by auto
    next
      case False
      then have "w = Until_Advance" "c = Advance" by (auto simp: keeps_def intro: scope.exhaust)
      with st tr show ?thesis by (auto dest: step_event)
    qed
  qed
  have "Inv s \<Longrightarrow> run E cs s = Inr (tr, s') \<Longrightarrow> stays_invalid w tr" for cs s tr s'
  proof (induction cs arbitrary: s tr)
    case Nil
    then show ?case by simp
  next
    case (Cons c cs)
    from Cons.prems(2) obtain ev s1 tr1 where
      st: "step E c s = Inr (ev, s1)" and r: "run E cs s1 = Inr (tr1, s')" and tr: "tr = ev # tr1"
      by (auto split: sum.splits)
    have "stays_invalid w tr1" by (rule Cons.IH [OF A2 [OF Cons.prems(1) st] r])
    moreover have "Returned True \<notin> set (span w tr1)" if "ev = Returned False"
    proof -
      from that st have "c = Valid" by (auto simp: step_def split: call.splits sum.splits)
      with A4 [OF Cons.prems(1)] st that have "Dead s1" by simp
      then show ?thesis using r by (rule dead)
    qed
    ultimately show ?case using tr by simp
  qed
  with inv show ?thesis unfolding single_pass_def by blast
qed

lemma sp_bool: "to_bool P p = Inr (b, p1) \<Longrightarrow> single_pass w P p \<Longrightarrow> single_pass w P p1"
  using single_pass_step [of w P p Valid "Returned b" p1] by (simp add: step_def)

lemma sp_deref: "deref P p = Inr (x, p1) \<Longrightarrow> single_pass w P p \<Longrightarrow> single_pass w P p1"
  using single_pass_step [of w P p Current Read p1] by (simp add: step_def)

lemma sp_incr: "incr P p = Inr p1 \<Longrightarrow> single_pass w P p \<Longrightarrow> single_pass w P p1"
  using single_pass_step [of w P p Advance Moved p1] by (simp add: step_def)

lemma sp_bool_False: "to_bool P p = Inr (False, p1) \<Longrightarrow> single_pass w P p \<Longrightarrow> exhausted w P p1"
  using single_pass_exhausted [of w P p p1] by (simp add: step_def)

lemma ex_bool: "to_bool P p = Inr (b, p1) \<Longrightarrow> exhausted w P p \<Longrightarrow> exhausted w P p1"
  using exhausted_step [of w P p Valid "Returned b" p1] by (simp add: step_def keeps_def)

lemma ex_bool_False: "to_bool P p = Inr (True, p1) \<Longrightarrow> exhausted w P p \<Longrightarrow> False"
  using exhausted_step [of w P p Valid "Returned True" p1] by (simp add: step_def keeps_def)

lemma ex_deref: "deref P p = Inr (x, p1) \<Longrightarrow> exhausted w P p \<Longrightarrow> exhausted w P p1"
  using exhausted_step [of w P p Current Read p1] by (simp add: step_def keeps_def)

lemma ex_incr: "incr P p = Inr p1 \<Longrightarrow> keeps w Advance \<Longrightarrow> exhausted w P p \<Longrightarrow> exhausted w P p1"
  using exhausted_step [of w P p Advance Moved p1] by (simp add: step_def)

lemmas sp_steps = sp_bool sp_deref sp_incr sp_bool_False ex_bool ex_deref ex_incr

lemma single_pass_take:
  assumes "single_pass w P p"
  shows "single_pass w (take_class P) (take_ctor p n)"
proof (rule single_passI
    [where Inv = "\<lambda>s. single_pass w P (take_parent s)"
       and Dead = "\<lambda>s. single_pass w P (take_parent s) \<and>
                        (take_amount s \<le> 0 \<or> exhausted w P (take_parent s))"], goal_cases)
  case 1
  from assms show ?case by (simp add: take_ctor_def)
next
  case (2 s c ev s1)
  then show ?case
    by (cases c)
       (auto simp: step_def take_class_def take_bool_def take_deref_def take_incr_def
             split: sum.splits if_splits intro: sp_steps)
next
  case (3 s c ev s1)
  then show ?case
    by (cases c)
       (auto simp: step_def take_class_def take_bool_def take_deref_def take_incr_def
             split: sum.splits if_splits
             dest: ex_bool_False intro: sp_steps)
next
  case (4 s s1)
  then show ?case
    by (auto simp: step_def take_class_def take_bool_def
             split: sum.splits if_splits intro: sp_steps)
qed

lemma where_loop_closed:
  assumes run: "where_loop P f p = Some (Inr p')"
    and b: "\<And>p b p1. to_bool P p = Inr (b, p1) \<Longrightarrow> Q p \<Longrightarrow> Q p1"
    and d: "\<And>p x p1. deref P p = Inr (x, p1) \<Longrightarrow> Q p \<Longrightarrow> Q p1"
    and i: "\<And>p p1. incr P p = Inr p1 \<Longrightarrow> Q p \<Longrightarrow> Q p1"
  shows "Q p \<Longrightarrow> Q p'"
  using run
proof (induction rule: where_loop_returns_induct)
  case (invalid p p1)
  then show ?case using b by blast
next
  case (found p p1 x p2)
  then show ?case using b d by blast
next
  case (step p p1 x p2 p3 p')
  from step.prems step.hyps(1,2,4) have "Q p3" using b d i by blast
  then show ?case by (rule step.IH)
qed

lemma drop_loop_closed:
  assumes b: "\<And>p b p1. to_bool P p = Inr (b, p1) \<Longrightarrow> Q p \<Longrightarrow> Q p1"
    and i: "\<And>p p1. incr P p = Inr p1 \<Longrightarrow> Q p \<Longrightarrow> Q p1"
  shows "drop_loop P k n p = Inr p' \<Longrightarrow> Q p \<Longrightarrow> Q p'"
proof (induction "nat (n - k)" arbitrary: k p)
  case 0
  then show ?case by (subst (asm) drop_loop.simps) simp
next
  case (Suc m)
  then have lt: "k < n" and m: "m = nat (n - (k + 1))" by auto
  from Suc.prems(1) lt have body:
    "(case to_bool P p of
        Inl e \<Rightarrow> Inl e
      | Inr (b, p1) \<Rightarrow>
          if b then (case incr P p1 of Inl e \<Rightarrow> Inl e | Inr p2 \<Rightarrow> drop_loop P (k + 1) n p2)
          else Inr p1) = Inr p'"
    by (subst (asm) drop_loop.simps) simp
  then obtain b0 p1 where p1: "to_bool P p = Inr (b0, p1)"
    by (auto split: sum.splits)
  with b Suc.prems(2) have Q1: "Q p1" by blast
  show ?case
  proof (cases b0)
    case False
    with body p1 Q1 show ?thesis by simp
  next
    case True
    with body p1 obtain p2 where p2: "incr P p1 = Inr p2" "drop_loop P (k + 1) n p2 = Inr p'"
      by (auto split: sum.splits)
    from i [OF p2(1) Q1] have "Q p2" .
    with Suc.hyps(1) [OF m p2(2)] show ?thesis .
  qed
qed

lemma single_pass_drop:
  assumes "single_pass w P p" "drop_ctor P p n = Inr s"
  shows "single_pass w (drop_class P) s"
proof (rule single_passI
    [where Inv = "\<lambda>s. single_pass w P (drop_parent s)"
       and Dead = "\<lambda>s. single_pass w P (drop_parent s) \<and> exhausted w P (drop_parent s)"],
    goal_cases)
  case 1
  from assms(2) obtain p' where dl: "drop_loop P 0 n p = Inr p'" and s: "s = \<lparr>drop_parent = p'\<rparr>"
    by (auto simp: drop_ctor_def split: sum.splits)
  have "single_pass w P p'"
    by (rule drop_loop_closed [where Q = "single_pass w P", OF sp_bool sp_incr dl assms(1)])
  with s show ?case by simp
next
  case (2 s c ev s1)
  then show ?case
    by (cases c)
       (auto simp: step_def drop_class_def drop_bool_def drop_deref_def drop_incr_def
             split: sum.splits intro: sp_steps)
next
  case (3 s c ev s1)
  then show ?case
    by (cases c)
       (auto simp: step_def drop_class_def drop_bool_def drop_deref_def drop_incr_def
             split: sum.splits
             dest: ex_bool_False intro: sp_steps)
next
  case (4 s s1)
  then show ?case
    by (auto simp: step_def drop_class_def drop_bool_def
             split: sum.splits intro: sp_steps)
qed

lemma single_pass_select:
  assumes "single_pass w P p"
  shows "single_pass w (select_class cv P) (select_ctor p f)"
proof (rule single_passI
    [where Inv = "\<lambda>s. single_pass w P (select_parent s)"
       and Dead = "\<lambda>s. single_pass w P (select_parent s) \<and> exhausted w P (select_parent s)"],
    goal_cases)
  case 1
  from assms show ?case by (simp add: select_ctor_def)
next
  case (2 s c ev s1)
  then show ?case
    by (cases c)
       (auto simp: step_def select_class_def select_bool_def select_deref_def select_incr_def
             split: sum.splits if_splits option.splits intro: sp_steps)
next
  case (3 s c ev s1)
  then show ?case
    by (cases c)
       (auto simp: step_def select_class_def select_bool_def select_deref_def select_incr_def
             split: sum.splits if_splits option.splits
             dest: ex_bool_False intro: sp_steps)
next
  case (4 s s1)
  then show ?case
    by (auto simp: step_def select_class_def select_bool_def
             split: sum.splits intro: sp_steps)
qed

lemma where_loop_single_pass:
  "where_loop P f p = Some (Inr p') \<Longrightarrow> single_pass w P p \<Longrightarrow> single_pass w P p'"
  by (rule where_loop_closed [where Q = "single_pass w P", OF _ sp_bool sp_deref sp_incr])

lemma where_loop_exhausted:
  "where_loop P f p = Some (Inr p') \<Longrightarrow> keeps w Advance \<Longrightarrow> exhausted w P p \<Longrightarrow> exhausted w P p'"
  by (rule where_loop_closed [where Q = "exhausted w P", OF _ ex_bool ex_deref ex_incr])

lemma single_pass_where:
  assumes "single_pass w P p" "where_ctor P p f = Inr s"
  shows "single_pass w (where_class P) s"
proof (rule single_passI
    [where Inv = "\<lambda>s. single_pass w P (where_parent s)"
       and Dead = "\<lambda>s. single_pass w P (where_parent s) \<and> exhausted w P (where_parent s)"],
    goal_cases)
  case 1
  from assms show ?case
    by (auto simp: where_ctor_def returned_def split: sum.splits option.splits
             intro: where_loop_single_pass)
next
  case (2 s c ev s1)
  then show ?case
    by (cases c)
       (auto simp: step_def where_class_def where_bool_def where_deref_def where_incr_def
                   returned_def
             split: sum.splits option.splits
             intro: sp_steps where_loop_single_pass)
next
  case (3 s c ev s1)
  then show ?case
    by (cases c)
       (auto simp: step_def where_class_def where_bool_def where_deref_def where_incr_def
                   returned_def
             split: sum.splits option.splits
             dest: ex_bool_False intro: sp_steps where_loop_exhausted where_loop_single_pass)
next
  case (4 s s1)
  then show ?case
    by (auto simp: step_def where_class_def where_bool_def
             split: sum.splits intro: sp_steps)
qed

lemma single_pass_until:
  assumes "single_pass Until_Advance P p"
  shows "single_pass Until_Advance (until_class P) (until_ctor p f)"
proof (rule single_passI
    [where Inv = "\<lambda>s. single_pass Until_Advance P (until_parent s)"
       and Dead = "\<lambda>s. single_pass Until_Advance P (until_parent s) \<and>
                        (exhausted Until_Advance P (until_parent s) \<or>
                         until_flag_of_flag s \<and> until_flag s = Some False)"],
    goal_cases)
  case 1
  from assms show ?case by (simp add: until_ctor_def)
next
  case (2 s c ev s1)
  then show ?case
    by (cases c;
        auto simp: step_def until_class_def until_bool_def until_deref_def until_incr_def
             split: sum.splits if_splits option.splits;
        auto intro: sp_bool sp_deref sp_incr sp_deref [OF _ sp_bool])
next
  case (3 s c ev s1)
  then show ?case
    by (cases c;
        auto simp: step_def until_class_def until_bool_def until_deref_def until_incr_def
                   keeps_def
             split: sum.splits if_splits option.splits;
        auto dest: ex_bool_False
             intro: sp_bool sp_deref ex_bool ex_deref sp_deref [OF _ sp_bool])
next
  case (4 s s1)
  then show ?case
    by (auto simp: step_def until_class_def until_bool_def
             split: sum.splits if_splits option.splits;
        auto intro: sp_bool sp_deref sp_bool_False sp_deref [OF _ sp_bool])
qed

lemma single_pass_range:
  assumes "w = Forever \<longrightarrow> length (range_coll r) \<le> range_end r"
  shows "single_pass w range_class r"
proof (rule single_passI
    [where Inv = "\<lambda>r. w = Forever \<longrightarrow> length (range_coll r) \<le> range_end r"
       and Dead = "\<lambda>r. (w = Forever \<longrightarrow> length (range_coll r) \<le> range_end r) \<and>
                        range_begin r = range_end r"],
    goal_cases)
  case 1
  from assms show ?case .
next
  case (2 s c ev s1)
  then show ?case
    by (cases c)
       (auto simp: step_def range_class_def range_bool_def range_deref_def range_incr_def
             split: if_splits)
next
  case (3 s c ev s1)
  then show ?case
    by (cases c)
       (auto simp: step_def range_class_def range_bool_def range_deref_def range_incr_def keeps_def
             split: if_splits)
next
  case (4 s s1)
  then show ?case
    by (auto simp: step_def range_class_def range_bool_def)
qed

lemma take_step_nonpositive:
  assumes "INT_MIN \<le> n" "n \<le> a" "a \<le> 0"
    and "step (take_class P) c \<lparr>take_parent = p, take_amount = n\<rparr> = Inr (ev, s)"
  shows "INT_MIN \<le> take_amount s \<and> take_amount s \<le> n \<and>
         step (take_class P) c \<lparr>take_parent = p, take_amount = a\<rparr> =
           Inr (ev, \<lparr>take_parent = take_parent s, take_amount = take_amount s + (a - n)\<rparr>)"
  using assms
  by (cases c)
     (auto simp: step_def take_class_def take_bool_def take_deref_def take_incr_def
           split: sum.splits if_splits)

lemma take_run_nonpositive:
  "INT_MIN \<le> n \<Longrightarrow> n \<le> a \<Longrightarrow> a \<le> 0 \<Longrightarrow>
   run (take_class P) cs \<lparr>take_parent = p, take_amount = n\<rparr> = Inr (tr, s) \<Longrightarrow>
   run (take_class P) cs \<lparr>take_parent = p, take_amount = a\<rparr> =
     Inr (tr, \<lparr>take_parent = take_parent s, take_amount = take_amount s + (a - n)\<rparr>)"
proof (induction cs arbitrary: p n a tr)
  case Nil
  then show ?case by auto
next
  case (Cons c cs)
  from Cons.prems(4) obtain ev s1 tr1 where
    st: "step (take_class P) c \<lparr>take_parent = p, take_amount = n\<rparr> = Inr (ev, s1)"
    and r: "run (take_class P) cs s1 = Inr (tr1, s)" and tr: "tr = ev # tr1"
    by (auto split: sum.splits)
  from take_step_nonpositive [OF Cons.prems(1-3) st]
  have b: "INT_MIN \<le> take_amount s1" "take_amount s1 \<le> n"
    and st': "step (take_class P) c \<lparr>take_parent = p, take_amount = a\<rparr> =
           Inr (ev, \<lparr>take_parent = take_parent s1, take_amount = take_amount s1 + (a - n)\<rparr>)"
    by simp_all
  have s1: "s1 = \<lparr>take_parent = take_parent s1, take_amount = take_amount s1\<rparr>" by simp
  from b Cons.prems(2,3)
  have "take_amount s1 \<le> take_amount s1 + (a - n)" "take_amount s1 + (a - n) \<le> 0" by simp_all
  from Cons.IH [OF b(1) this, of "take_parent s1" tr1] r s1
  have "run (take_class P) cs \<lparr>take_parent = take_parent s1, take_amount = take_amount s1 + (a - n)\<rparr> =
     Inr (tr1, \<lparr>take_parent = take_parent s, take_amount = take_amount s + (a - n)\<rparr>)"
    by simp
  with st' tr show ?case by simp
qed

section \<open>The claims\<close>

lemmas method_defs =
  range_class_def range_bool_def range_deref_def range_incr_def
  take_class_def take_bool_def take_deref_def take_incr_def take_ctor_def
  drop_class_def drop_bool_def drop_deref_def drop_incr_def drop_ctor_def drop_loop.simps
  select_class_def select_bool_def select_deref_def select_incr_def select_ctor_def
  until_class_def until_bool_def until_deref_def until_incr_def until_ctor_def
  where_class_def where_bool_def where_deref_def where_incr_def where_ctor_def where_loop.simps
  returned_def INT_MIN_def step_def

subsection \<open>Once invalid, always invalid\<close>

text \<open>
  Claim C1 as stated fails.  On \<open>from([1, 0, 2]).until_eq(0)\<close> the calls \<open>valid()\<close>, \<open>advance()\<close>,
  \<open>valid()\<close>, \<open>advance()\<close>, \<open>valid()\<close> return true, false, true: the second \<open>operator++\<close> moves the
  upstream from \<open>0\<close> to \<open>2\<close> and clears \<open>flag_of_flag_\<close>, so \<open>operator bool\<close> evaluates the predicate
  again.  No call meets undefined behaviour.
\<close>
theorem until_revives_counterexample:
  "map_sum id fst
     (run (until_class range_class) [Valid, Advance, Valid, Advance, Valid]
          (snd (linq_until_eq (from_all [1, 0, 2 :: int]) 0))) =
     Inr [Returned True, Moved, Returned False, Moved, Returned True] \<and>
   \<not> stays_invalid Forever [Returned True, Moved, Returned False, Moved, Returned True]"
  by (simp add: step_def until_class_def until_bool_def until_incr_def range_class_def
                range_bool_def range_deref_def range_incr_def linq_until_eq_def linq_until_def
                until_ctor_def from_all_def linq_from_def)

text \<open>
  Claim C1, amended.  \<open>single_pass Forever\<close>: in every sequence of \<open>valid()\<close>, \<open>current()\<close>,
  \<open>advance()\<close> calls that returns, once \<open>valid()\<close> has returned false every later \<open>valid()\<close> returns
  false.  A source cursor whose end marker is (at or beyond) the end of its collection has it,
  and take, drop, select and where cursors have it when their upstream has it.
  \<open>single_pass Until_Advance\<close>: the same up to the next \<open>advance()\<close>.  Every source cursor has
  it, and every decorator, the until cursor included, has it when its upstream has it.
\<close>
theorem cursors_single_pass:
  "((w = Forever \<longrightarrow> length (range_coll r) \<le> range_end r) \<longrightarrow> single_pass w range_class r) \<and>
   (single_pass w P p \<longrightarrow> single_pass w (take_class P) (take_ctor p n)) \<and>
   (single_pass w P p \<and> drop_ctor P p n = Inr sd \<longrightarrow> single_pass w (drop_class P) sd) \<and>
   (single_pass w P p \<longrightarrow> single_pass w (select_class cv P) (select_ctor p f)) \<and>
   (single_pass w P p \<and> where_ctor P p g = Inr sw \<longrightarrow> single_pass w (where_class P) sw) \<and>
   (single_pass Until_Advance P p \<longrightarrow> single_pass Until_Advance (until_class P) (until_ctor p g))"
  by (intro conjI impI single_pass_range single_pass_take single_pass_select single_pass_until)
     (auto intro: single_pass_drop single_pass_where)

theorem cursors_single_pass_witness:
  "length (range_coll \<lparr>range_coll = [1, 2, 3, 4, 5, 6 :: int], range_begin = 0, range_end = 6\<rparr>)
     \<le> range_end \<lparr>range_coll = [1, 2, 3, 4, 5, 6 :: int], range_begin = 0, range_end = 6\<rparr> \<and>
   where_ctor range_class \<lparr>range_coll = [1, 2, 3, 4, 5, 6 :: int], range_begin = 0, range_end = 6\<rparr> even =
     Inr \<lparr>where_parent = \<lparr>range_coll = [1, 2, 3, 4, 5, 6], range_begin = 1, range_end = 6\<rparr>,
          where_func = even\<rparr> \<and>
   drop_ctor (select_class id (where_class range_class))
     (select_ctor \<lparr>where_parent = \<lparr>range_coll = [1, 2, 3, 4, 5, 6 :: int], range_begin = 1, range_end = 6\<rparr>,
                   where_func = even\<rparr> (\<lambda>x. x * 10)) 1 =
     Inr \<lparr>drop_parent =
           \<lparr>select_parent =
              \<lparr>where_parent = \<lparr>range_coll = [1, 2, 3, 4, 5, 6], range_begin = 3, range_end = 6\<rparr>,
               where_func = even\<rparr>,
            select_value = None, select_func = (\<lambda>x. x * 10), select_flag = True,
            select_calls = []\<rparr>\<rparr> \<and>
   single_pass Forever (take_class (drop_class (select_class id (where_class range_class))))
     (take_ctor
        \<lparr>drop_parent =
           \<lparr>select_parent =
              \<lparr>where_parent = \<lparr>range_coll = [1, 2, 3, 4, 5, 6 :: int], range_begin = 3, range_end = 6\<rparr>,
               where_func = even\<rparr>,
            select_value = None, select_func = (\<lambda>x. x * 10), select_flag = True,
            select_calls = []\<rparr>\<rparr> 1) \<and>
   run (take_class (drop_class (select_class id (where_class range_class))))
     [Valid, Current, Advance, Valid, Advance, Valid]
     (take_ctor
        \<lparr>drop_parent =
           \<lparr>select_parent =
              \<lparr>where_parent = \<lparr>range_coll = [1, 2, 3, 4, 5, 6 :: int], range_begin = 3, range_end = 6\<rparr>,
               where_func = even\<rparr>,
            select_value = None, select_func = (\<lambda>x. x * 10), select_flag = True,
            select_calls = []\<rparr>\<rparr> 1) =
     Inr ([Returned True, Read, Moved, Returned False, Moved, Returned False],
          \<lparr>take_parent =
             \<lparr>drop_parent =
                \<lparr>select_parent =
                   \<lparr>where_parent = \<lparr>range_coll = [1, 2, 3, 4, 5, 6], range_begin = 6, range_end = 6\<rparr>,
                    where_func = even\<rparr>,
                 select_value = Some 40, select_func = (\<lambda>x. x * 10), select_flag = True,
                 select_calls = [4]\<rparr>\<rparr>,
           take_amount = - 1\<rparr>) \<and>
   stays_invalid Forever [Returned True, Read, Moved, Returned False, Moved, Returned False] \<and>
   single_pass Until_Advance (until_class range_class)
     (until_ctor \<lparr>range_coll = [1, 0, 2 :: int], range_begin = 0, range_end = 2\<rparr> (\<lambda>elem. elem = 0))"
proof -
  let ?r = "\<lparr>range_coll = [1, 2, 3, 4, 5, 6 :: int], range_begin = 0, range_end = 6\<rparr>"
  let ?w = "\<lparr>where_parent = \<lparr>range_coll = [1, 2, 3, 4, 5, 6 :: int], range_begin = 1, range_end = 6\<rparr>,
            where_func = even\<rparr>"
  let ?f = "\<lambda>x :: int. x * 10"
  let ?d = "\<lparr>drop_parent =
           \<lparr>select_parent =
              \<lparr>where_parent = \<lparr>range_coll = [1, 2, 3, 4, 5, 6 :: int], range_begin = 3, range_end = 6\<rparr>,
               where_func = even\<rparr>,
            select_value = None, select_func = ?f, select_flag = True,
            select_calls = []\<rparr>\<rparr>"
  let ?u = "\<lparr>range_coll = [1, 0, 2 :: int], range_begin = 0, range_end = 2\<rparr>"
  have len: "length (range_coll ?r) \<le> range_end ?r" by simp
  have wc: "where_ctor range_class ?r even = Inr ?w"
    by (simp add: method_defs)
  have dc: "drop_ctor (select_class id (where_class range_class)) (select_ctor ?w ?f) 1 = Inr ?d"
    by (simp add: method_defs)
  note c1 = cursors_single_pass [THEN conjunct1, rule_format]
  note c2 = cursors_single_pass [THEN conjunct2, THEN conjunct1, rule_format]
  note c3 = cursors_single_pass [THEN conjunct2, THEN conjunct2, THEN conjunct1, rule_format]
  note c4 = cursors_single_pass
    [THEN conjunct2, THEN conjunct2, THEN conjunct2, THEN conjunct1, rule_format]
  note c5 = cursors_single_pass
    [THEN conjunct2, THEN conjunct2, THEN conjunct2, THEN conjunct2, THEN conjunct1, rule_format]
  note c6 = cursors_single_pass
    [THEN conjunct2, THEN conjunct2, THEN conjunct2, THEN conjunct2, THEN conjunct2, rule_format]
  have r: "single_pass Forever range_class ?r"
    by (rule c1) (simp add: len)
  have w: "single_pass Forever (where_class range_class) ?w"
    by (rule c5 [OF conjI [OF r wc]])
  have s: "single_pass Forever (select_class id (where_class range_class)) (select_ctor ?w ?f)"
    by (rule c4 [OF w])
  have d: "single_pass Forever (drop_class (select_class id (where_class range_class))) ?d"
    by (rule c3 [OF conjI [OF s dc]])
  have t: "single_pass Forever (take_class (drop_class (select_class id (where_class range_class))))
             (take_ctor ?d 1)"
    by (rule c2 [OF d])
  have ur: "single_pass Until_Advance range_class ?u"
    by (rule c1) simp
  have u: "single_pass Until_Advance (until_class range_class) (until_ctor ?u (\<lambda>elem. elem = 0))"
    by (rule c6 [OF ur])
  have run: "run (take_class (drop_class (select_class id (where_class range_class))))
     [Valid, Current, Advance, Valid, Advance, Valid] (take_ctor ?d 1) =
     Inr ([Returned True, Read, Moved, Returned False, Moved, Returned False],
          \<lparr>take_parent =
             \<lparr>drop_parent =
                \<lparr>select_parent =
                   \<lparr>where_parent = \<lparr>range_coll = [1, 2, 3, 4, 5, 6], range_begin = 6, range_end = 6\<rparr>,
                    where_func = even\<rparr>,
                 select_value = Some 40, select_func = ?f, select_flag = True,
                 select_calls = [4]\<rparr>\<rparr>,
           take_amount = - 1\<rparr>)"
    by (simp add: method_defs)
  from t run
  have m: "stays_invalid Forever [Returned True, Read, Moved, Returned False, Moved, Returned False]"
    unfolding single_pass_def by blast
  from len wc dc t run m u show ?thesis by (intro conjI)
qed

subsection \<open>take\<close>

text \<open>
  Claim C2.  For every finite sequence \<open>xs\<close> and every count \<open>k \<ge> 0\<close>,
  \<open>from(xs).take(k).to_vector()\<close> returns the first \<open>min k (length xs)\<close> elements of \<open>xs\<close>, in
  their order.
\<close>
theorem take_to_vector:
  "0 \<le> k \<Longrightarrow>
   \<exists>s'. to_vector (linq_take (from_all xs) k) = Inr (take (min (nat k) (length xs)) xs, s')"
proof -
  have "refines (take_class range_class) (\<lambda>s. range_inv (take_parent s)) (take_rest range_rest)"
    by (rule refines_take [OF refines_range])
  from to_vector_loop_refines [OF this, of "take_ctor (snd (from_all xs)) k" _ "[]"]
  show ?thesis
    by (auto simp: to_vector_def linq_take_def returned_def take_ctor_def take_rest_def
                   from_all_simps take_min_length)
qed

theorem take_to_vector_witness:
  "(0::int) \<le> 2 \<and> (\<exists>s'. to_vector (linq_take (from_all [5, 6, 7 :: nat]) 2) = Inr ([5, 6], s'))"
  using take_to_vector [of 2 "[5, 6, 7 :: nat]"] by simp

subsection \<open>drop\<close>

lemma drop_ctor_range:
  "drop_ctor range_class (snd (from_all xs)) k =
     Inr \<lparr>drop_parent = \<lparr>range_coll = xs, range_begin = min (nat k) (length xs),
                            range_end = length xs\<rparr>\<rparr>"
proof -
  have R: "refines range_class (\<lambda>r. range_inv r \<and> range_on xs r) range_rest"
    by (rule refines_strengthen [OF refines_range]) (erule range_on_step, assumption)+
  from drop_loop_refines [OF R, of "snd (from_all xs)" 0 k]
  obtain p' where p': "drop_loop range_class 0 k (snd (from_all xs)) = Inr p'"
    "range_inv p'" "range_on xs p'" "range_rest p' = drop (nat k) xs"
    by (auto simp: from_all_simps)
  from range_on_eq [OF p'(2,3,4)] p'(1) show ?thesis
    by (simp add: drop_ctor_def)
qed

text \<open>
  Claim C3.  For every finite sequence \<open>xs\<close> and every count \<open>k \<ge> 0\<close>: the constructor of the
  drop cursor returns with the upstream already moved to position \<open>min k (length xs)\<close>;
  \<open>from(xs).drop(k).to_vector()\<close> returns the elements after that prefix, in order; and
  \<open>operator++\<close> and \<open>operator*\<close> of any drop cursor forward to the upstream.
\<close>
theorem drop_to_vector:
  "0 \<le> k \<Longrightarrow>
   linq_drop (from_all xs) k =
     Inr (drop_class range_class,
          \<lparr>drop_parent = \<lparr>range_coll = xs, range_begin = min (nat k) (length xs),
                           range_end = length xs\<rparr>\<rparr>) \<and>
   (\<exists>s'. and_then (linq_drop (from_all xs) k) to_vector = Inr (drop (min (nat k) (length xs)) xs, s')) \<and>
   incr (drop_class P) s =
     (case incr P (drop_parent s) of Inl e \<Rightarrow> Inl e | Inr p \<Rightarrow> Inr \<lparr>drop_parent = p\<rparr>) \<and>
   deref (drop_class P) s =
     (case deref P (drop_parent s) of Inl e \<Rightarrow> Inl e | Inr (x, p) \<Rightarrow> Inr (x, \<lparr>drop_parent = p\<rparr>))"
proof (intro conjI)
  let ?r = "\<lparr>range_coll = xs, range_begin = min (nat k) (length xs), range_end = length xs\<rparr>"
  show c: "linq_drop (from_all xs) k = Inr (drop_class range_class, \<lparr>drop_parent = ?r\<rparr>)"
    by (simp add: linq_drop_def drop_ctor_range from_all_simps)
  have "refines (drop_class range_class) (\<lambda>s. range_inv (drop_parent s)) (\<lambda>s. range_rest (drop_parent s))"
    by (rule refines_drop [OF refines_range])
  from to_vector_loop_refines [OF this, of "\<lparr>drop_parent = ?r\<rparr>" _ "[]"]
  show "\<exists>s'. and_then (linq_drop (from_all xs) k) to_vector = Inr (drop (min (nat k) (length xs)) xs, s')"
    by (auto simp: c and_then_def to_vector_def returned_def range_inv_def range_rest_def
                   drop_min_length)
  show "incr (drop_class P) s =
     (case incr P (drop_parent s) of Inl e \<Rightarrow> Inl e | Inr p \<Rightarrow> Inr \<lparr>drop_parent = p\<rparr>)"
    by (simp add: drop_class_def drop_incr_def split: sum.splits)
  show "deref (drop_class P) s =
     (case deref P (drop_parent s) of Inl e \<Rightarrow> Inl e | Inr (x, p) \<Rightarrow> Inr (x, \<lparr>drop_parent = p\<rparr>))"
    by (simp add: drop_class_def drop_deref_def split: sum.splits prod.splits)
qed

theorem drop_to_vector_witness:
  "(0::int) \<le> 2 \<and>
   linq_drop (from_all [1, 2, 3, 4, 5 :: int]) 2 =
     Inr (drop_class range_class,
          \<lparr>drop_parent = \<lparr>range_coll = [1, 2, 3, 4, 5], range_begin = 2, range_end = 5\<rparr>\<rparr>) \<and>
   (\<exists>s'. and_then (linq_drop (from_all [1, 2, 3, 4, 5 :: int]) 2) to_vector = Inr ([3, 4, 5], s'))"
  using drop_to_vector [of 2 "[1, 2, 3, 4, 5 :: int]" range_class "\<lparr>drop_parent = snd (from_all [1, 2, 3, 4, 5 :: int])\<rparr>"]
  by (auto simp: eval_nat_numeral)

subsection \<open>select\<close>

text \<open>
  Claim C4 as stated fails.  The select cursor presents the element type that \<open>select\<close> fixes,
  not the result type of \<open>f\<close>.  Over a collection of \<open>unsigned char\<close>, \<open>select(f)\<close> with
  \<open>f(x) = 2 * x\<close> (an \<open>int\<close>) presents \<open>unsigned char\<close>: \<open>operator*\<close> stores \<open>f\<close>'s result in
  \<open>value_\<close>, which converts it modulo 256.  On \<open>[200, 100]\<close> the results of \<open>f\<close> are \<open>[400, 200]\<close>
  and \<open>to_vector()\<close> returns \<open>[144, 200]\<close>.
\<close>
theorem select_converts_counterexample:
  "map_sum id fst
     (to_vector (linq_select (from_all [200, 100 :: 8 word]) word_of_int ((*) 2 \<circ> uint))) =
     Inr [144, 200 :: 8 word] \<and>
   map ((*) 2 \<circ> uint) [200, 100 :: 8 word] = [400, 200 :: int] \<and>
   map uint [144, 200 :: 8 word] \<noteq> [400, 200]"
  by (simp add: to_vector_def linq_select_def to_vector_loop.simps returned_def from_all_def
                linq_from_def select_class_def select_bool_def select_deref_def select_incr_def
                select_ctor_def range_class_def range_bool_def range_deref_def range_incr_def)

text \<open>
  Claim C4, amended.  \<open>from(xs).select(f).to_vector()\<close> returns, in order, the result of \<open>f\<close> on
  each element of \<open>xs\<close> converted to the element type of the select cursor, and has invoked \<open>f\<close>
  once on each element, in order (the log of invocations is \<open>xs\<close>); it returns \<open>map f xs\<close> when
  \<open>f\<close> returns that type, the conversion being the identity.  On any select cursor, a second
  \<open>operator*\<close> without an \<open>operator++\<close> in between returns the same value and leaves the state,
  the invocation log included, as it is; and \<open>operator bool\<close> returns what the upstream's
  \<open>operator bool\<close> returns.
\<close>
theorem select_to_vector:
  "(\<exists>s'. to_vector (linq_select (from_all xs) convert f) = Inr (map (\<lambda>x. convert (f x)) xs, s') \<and>
         select_calls s' = xs) \<and>
   (\<exists>s'. to_vector (linq_select (from_all xs) id g) = Inr (map g xs, s') \<and> select_calls s' = xs) \<and>
   (deref (select_class convert P) s = Inr (v, s1) \<longrightarrow>
      deref (select_class convert P) s1 = Inr (v, s1)) \<and>
   to_bool (select_class convert P) s =
     (case to_bool P (select_parent s) of
        Inl e \<Rightarrow> Inl e
      | Inr (b, p) \<Rightarrow> Inr (b, s\<lparr>select_parent := p\<rparr>))"
proof (intro conjI)
  from to_vector_loop_select
    [OF refines_range, of "select_ctor (snd (from_all xs)) f" xs convert "[]"]
  show "\<exists>s'. to_vector (linq_select (from_all xs) convert f) =
          Inr (map (\<lambda>x. convert (f x)) xs, s') \<and> select_calls s' = xs"
    by (auto simp: to_vector_def linq_select_def returned_def select_ctor_def from_all_simps)
  from to_vector_loop_select
    [OF refines_range, of "select_ctor (snd (from_all xs)) g" xs id "[]"]
  show "\<exists>s'. to_vector (linq_select (from_all xs) id g) = Inr (map g xs, s') \<and>
          select_calls s' = xs"
    by (auto simp: to_vector_def linq_select_def returned_def select_ctor_def from_all_simps)
  show "deref (select_class convert P) s = Inr (v, s1) \<longrightarrow>
      deref (select_class convert P) s1 = Inr (v, s1)"
    by (auto simp: select_class_def select_deref_def split: if_splits sum.splits option.splits)
  show "to_bool (select_class convert P) s =
     (case to_bool P (select_parent s) of
        Inl e \<Rightarrow> Inl e
      | Inr (b, p) \<Rightarrow> Inr (b, s\<lparr>select_parent := p\<rparr>))"
    by (simp add: select_class_def select_bool_def)
qed

theorem select_to_vector_witness:
  "(\<exists>s'. to_vector (linq_select (from_all [200, 100 :: 8 word]) word_of_int (\<lambda>x. 2 * uint x)) =
           Inr ([144, 200 :: 8 word], s') \<and>
         select_calls s' = [200, 100]) \<and>
   (\<exists>s'. to_vector (linq_select (from_all [1, 2, 3 :: int]) id (\<lambda>x. x * 10)) =
           Inr ([10, 20, 30], s') \<and>
         select_calls s' = [1, 2, 3]) \<and>
   deref (select_class word_of_int range_class)
     (select_ctor (snd (from_all [200, 100 :: 8 word])) (\<lambda>x. 2 * uint x)) =
     Inr (144 :: 8 word,
          \<lparr>select_parent = snd (from_all [200, 100]), select_value = Some 144,
           select_func = (\<lambda>x. 2 * uint x), select_flag = False, select_calls = [200]\<rparr>) \<and>
   deref (select_class word_of_int range_class)
     \<lparr>select_parent = snd (from_all [200, 100 :: 8 word]), select_value = Some (144 :: 8 word),
      select_func = (\<lambda>x. 2 * uint x), select_flag = False, select_calls = [200]\<rparr> =
     Inr (144,
          \<lparr>select_parent = snd (from_all [200, 100]), select_value = Some 144,
           select_func = (\<lambda>x. 2 * uint x), select_flag = False, select_calls = [200]\<rparr>)"
proof -
  let ?f = "\<lambda>x :: 8 word. 2 * uint x"
  let ?g = "\<lambda>x :: int. x * 10"
  let ?cv = "word_of_int :: int \<Rightarrow> 8 word"
  let ?s = "select_ctor (snd (from_all [200, 100 :: 8 word])) ?f :: (_, _, _, 8 word) select_enumerator"
  let ?s1 = "\<lparr>select_parent = snd (from_all [200, 100 :: 8 word]), select_value = Some (144 :: 8 word),
               select_func = ?f, select_flag = False, select_calls = [200]\<rparr>"
  have d: "deref (select_class ?cv range_class) ?s = Inr (144, ?s1)"
    by (simp add: select_class_def select_deref_def select_ctor_def range_class_def range_deref_def
                  from_all_def linq_from_def)
  note T = select_to_vector [of "[200, 100 :: 8 word]" ?cv ?f _ range_class ?s 144 ?s1]
  note T' = select_to_vector [where xs = "[1, 2, 3 :: int]" and g = ?g, THEN conjunct2, THEN conjunct1]
  have e: "(400 :: 8 word) = 144" by simp
  from T [THEN conjunct1] have a: "\<exists>s'. to_vector (linq_select (from_all [200, 100 :: 8 word]) ?cv ?f) =
           Inr ([144, 200], s') \<and> select_calls s' = [200, 100]"
    by (simp add: e)
  from T' have b: "\<exists>s'. to_vector (linq_select (from_all [1, 2, 3 :: int]) id ?g) =
           Inr ([10, 20, 30], s') \<and> select_calls s' = [1, 2, 3]"
    by simp
  from T [THEN conjunct2, THEN conjunct2, THEN conjunct1] d
  have c: "deref (select_class ?cv range_class) ?s1 = Inr (144, ?s1)"
    by (rule mp)
  from a b d c show ?thesis by (intro conjI)
qed

subsection \<open>until\<close>

text \<open>
  Claim C5.  \<open>from(xs).until(p).to_vector()\<close> returns the longest prefix of \<open>xs\<close> in which no
  element satisfies \<open>p\<close>: the first element satisfying \<open>p\<close> is not included.
\<close>
theorem until_to_vector:
  "\<exists>s'. to_vector (linq_until (from_all xs) p) = Inr (takeWhile (\<lambda>x. \<not> p x) xs, s')"
proof -
  have "refines (until_class range_class) (until_inv range_inv range_rest) (until_rest range_rest)"
    by (rule refines_until [OF refines_range])
  from to_vector_loop_refines [OF this, of "until_ctor (snd (from_all xs)) p" _ "[]"]
  show ?thesis
    by (auto simp: to_vector_def linq_until_def returned_def until_ctor_def until_inv_def
                   until_rest_def from_all_simps)
qed

theorem until_to_vector_witness:
  "\<exists>s'. to_vector (linq_until_eq (from_all [1, 2, 3, 0, 4, 5 :: int]) 0) = Inr ([1, 2, 3], s')"
  using until_to_vector [of "[1, 2, 3, 0, 4, 5 :: int]" "\<lambda>elem. elem = 0"]
  by (simp add: linq_until_eq_def)

subsection \<open>where\<close>

text \<open>
  Claim C6.  \<open>from(xs).where(p).to_vector()\<close> returns the elements of \<open>xs\<close> that satisfy \<open>p\<close>, in
  their order.  After the constructor of a where cursor over a source cursor in any state, and
  after every \<open>operator++\<close> that returns, the where cursor is invalid or its current element
  satisfies the predicate.
\<close>
theorem where_to_vector:
  "(\<exists>s'. and_then (linq_where (from_all xs) p) to_vector = Inr (filter p xs, s')) \<and>
   (where_ctor range_class r p = Inr s \<longrightarrow> where_settled range_class s) \<and>
   (incr (where_class range_class) s0 = Inr s1 \<longrightarrow> where_settled range_class s1)"
proof (intro conjI impI)
  from where_ctor_refines [OF refines_range, of "snd (from_all xs)" p]
  obtain s where s: "where_ctor range_class (snd (from_all xs)) p = Inr s"
    "where_inv range_inv range_rest s" "where_rest range_rest s = filter p xs"
    by (auto simp: from_all_simps)
  have "refines (where_class range_class) (where_inv range_inv range_rest) (where_rest range_rest)"
    by (rule refines_where [OF refines_range])
  from to_vector_loop_refines [OF this s(2,3), of "[]"] s(1)
  show "\<exists>s'. and_then (linq_where (from_all xs) p) to_vector = Inr (filter p xs, s')"
    by (auto simp: and_then_def linq_where_def to_vector_def returned_def from_all_simps)
next
  assume "where_ctor range_class r p = Inr s"
  then have "range_settled (where_func s) (where_parent s)"
    by (auto simp: where_ctor_def returned_def split: option.splits sum.splits
             dest: where_loop_range_settled)
  then show "where_settled range_class s" by (rule range_settled_where)
next
  assume "incr (where_class range_class) s0 = Inr s1"
  then have "range_settled (where_func s1) (where_parent s1)"
    by (auto simp: where_class_def where_incr_def returned_def split: option.splits sum.splits
             dest: where_loop_range_settled)
  then show "where_settled range_class s1" by (rule range_settled_where)
qed

theorem where_to_vector_witness:
  "(\<exists>s'. and_then (linq_where (from_all [1, 2, 3, 4, 5, 6 :: int]) even) to_vector = Inr ([2, 4, 6], s')) \<and>
   where_ctor range_class (snd (from_all [1, 2, 3 :: int])) even =
     Inr \<lparr>where_parent = \<lparr>range_coll = [1, 2, 3], range_begin = 1, range_end = 3\<rparr>, where_func = even\<rparr> \<and>
   where_settled range_class
     \<lparr>where_parent = \<lparr>range_coll = [1, 2, 3 :: int], range_begin = 1, range_end = 3\<rparr>, where_func = even\<rparr> \<and>
   incr (where_class range_class)
     \<lparr>where_parent = \<lparr>range_coll = [1, 2, 3 :: int], range_begin = 1, range_end = 3\<rparr>, where_func = even\<rparr> =
     Inr \<lparr>where_parent = \<lparr>range_coll = [1, 2, 3], range_begin = 3, range_end = 3\<rparr>, where_func = even\<rparr> \<and>
   where_settled range_class
     \<lparr>where_parent = \<lparr>range_coll = [1, 2, 3 :: int], range_begin = 3, range_end = 3\<rparr>, where_func = even\<rparr>"
proof -
  let ?r = "\<lambda>b. \<lparr>range_coll = [1, 2, 3 :: int], range_begin = b, range_end = 3\<rparr>"
  let ?s = "\<lambda>b. \<lparr>where_parent = ?r b, where_func = even\<rparr>"
  have c: "where_ctor range_class (snd (from_all [1, 2, 3 :: int])) even = Inr (?s 1)"
    by (simp add: where_ctor_def where_loop.simps returned_def range_class_def range_bool_def
                  range_deref_def range_incr_def from_all_def linq_from_def)
  have i: "incr (where_class range_class) (?s 1) = Inr (?s 3)"
    by (simp add: where_class_def where_incr_def where_loop.simps returned_def range_class_def
                  range_bool_def range_deref_def range_incr_def)
  from where_to_vector [of "[1, 2, 3, 4, 5, 6 :: int]" even "snd (from_all [1, 2, 3 :: int])" "?s 1" "?s 1" "?s 3"]
  have "(\<exists>s'. and_then (linq_where (from_all [1, 2, 3, 4, 5, 6 :: int]) even) to_vector = Inr ([2, 4, 6], s'))"
    "where_settled range_class (?s 1)" "where_settled range_class (?s 3)"
    using c i by simp_all
  with c i show ?thesis by simp
qed

subsection \<open>where composed with where\<close>

text \<open>
  Claim C7.  \<open>from(xs).where(p1).where(p2).to_vector()\<close> and
  \<open>from(xs).where(x => p1(x) && p2(x)).to_vector()\<close> return the same collection.
\<close>
theorem where_where_to_vector:
  "\<exists>s1 s2.
     and_then (and_then (linq_where (from_all xs) p1) (\<lambda>c. linq_where c p2)) to_vector =
       Inr (filter (\<lambda>x. p1 x \<and> p2 x) xs, s1) \<and>
     and_then (linq_where (from_all xs) (\<lambda>x. p1 x \<and> p2 x)) to_vector =
       Inr (filter (\<lambda>x. p1 x \<and> p2 x) xs, s2)"
proof -
  let ?I1 = "where_inv range_inv range_rest" and ?a1 = "where_rest range_rest"
  have R1: "refines (where_class range_class) ?I1 ?a1"
    by (rule refines_where [OF refines_range])
  have R2: "refines (where_class (where_class range_class)) (where_inv ?I1 ?a1) (where_rest ?a1)"
    by (rule refines_where [OF R1])
  from where_ctor_refines [OF refines_range, of "snd (from_all xs)" p1]
  obtain s where s: "where_ctor range_class (snd (from_all xs)) p1 = Inr s"
    "?I1 s" "?a1 s = filter p1 xs"
    by (auto simp: from_all_simps)
  from where_ctor_refines [OF R1 s(2), of p2] s(3)
  obtain t where t: "where_ctor (where_class range_class) s p2 = Inr t"
    "where_inv ?I1 ?a1 t" "where_rest ?a1 t = filter p2 (filter p1 xs)"
    by auto
  from to_vector_loop_refines [OF R2 t(2,3), of "[]"]
  obtain s1 where s1: "to_vector_loop (where_class (where_class range_class)) [] t =
      Some (Inr (filter p2 (filter p1 xs), s1))" by auto
  have "filter p2 (filter p1 xs) = filter (\<lambda>x. p1 x \<and> p2 x) xs"
    by (simp add: conj_commute)
  with s t s1
  have A: "and_then (and_then (linq_where (from_all xs) p1) (\<lambda>c. linq_where c p2)) to_vector =
       Inr (filter (\<lambda>x. p1 x \<and> p2 x) xs, s1)"
    by (simp add: and_then_def linq_where_def to_vector_def returned_def from_all_simps)
  from where_ctor_refines [OF refines_range, of "snd (from_all xs)" "\<lambda>x. p1 x \<and> p2 x"]
  obtain u where u: "where_ctor range_class (snd (from_all xs)) (\<lambda>x. p1 x \<and> p2 x) = Inr u"
    "?I1 u" "?a1 u = filter (\<lambda>x. p1 x \<and> p2 x) xs"
    by (auto simp: from_all_simps)
  from to_vector_loop_refines [OF R1 u(2,3), of "[]"] u(1)
  obtain s2 where "and_then (linq_where (from_all xs) (\<lambda>x. p1 x \<and> p2 x)) to_vector =
       Inr (filter (\<lambda>x. p1 x \<and> p2 x) xs, s2)"
    by (auto simp: and_then_def linq_where_def to_vector_def returned_def from_all_simps)
  with A show ?thesis by blast
qed

theorem where_where_to_vector_witness:
  "\<exists>s1 s2.
     and_then (and_then (linq_where (from_all [1, 2, 3, 4, 5, 6 :: int]) even) (\<lambda>c. linq_where c (\<lambda>x. 2 < x)))
       to_vector = Inr ([4, 6], s1) \<and>
     and_then (linq_where (from_all [1, 2, 3, 4, 5, 6 :: int]) (\<lambda>x. even x \<and> 2 < x)) to_vector =
       Inr ([4, 6], s2)"
  using where_where_to_vector [of "[1, 2, 3, 4, 5, 6 :: int]" even "\<lambda>x. 2 < x"] by simp

subsection \<open>take with a count of zero or less\<close>

text \<open>
  Claim C8.  For every count \<open>n \<le> 0\<close> (zero or negative) and every upstream cursor, the take
  cursor is invalid from construction and \<open>to_vector()\<close> on it returns the empty collection
  without touching the upstream.  \<open>take(n)\<close> behaves as \<open>take(0)\<close>: every sequence of calls that
  \<open>take(n)\<close> completes, \<open>take(0)\<close> completes with the same results and the same upstream state.
\<close>
theorem take_nonpositive:
  "n \<le> 0 \<Longrightarrow>
   to_bool (take_class P) (take_ctor p n) = Inr (False, take_ctor p n) \<and>
   to_vector (linq_take c n) = Inr ([], take_ctor (snd c) n) \<and>
   (INT_MIN \<le> n \<and> run (take_class P) cs (take_ctor p n) = Inr (tr, s) \<longrightarrow>
      run (take_class P) cs (take_ctor p 0) =
        Inr (tr, \<lparr>take_parent = take_parent s, take_amount = take_amount s - n\<rparr>))"
proof (intro conjI impI)
  assume n: "n \<le> 0"
  then show "to_bool (take_class P) (take_ctor p n) = Inr (False, take_ctor p n)"
    by (simp add: take_class_def take_bool_def take_ctor_def)
  from n show "to_vector (linq_take c n) = Inr ([], take_ctor (snd c) n)"
    by (simp add: take_class_def take_bool_def take_ctor_def to_vector_def linq_take_def
                  to_vector_loop.simps returned_def)
  assume "INT_MIN \<le> n \<and> run (take_class P) cs (take_ctor p n) = Inr (tr, s)"
  with take_run_nonpositive [of n 0 P cs p tr s] n
  show "run (take_class P) cs (take_ctor p 0) =
        Inr (tr, \<lparr>take_parent = take_parent s, take_amount = take_amount s - n\<rparr>)"
    by (simp add: take_ctor_def)
qed

theorem take_nonpositive_witness:
  "(- 3 :: int) \<le> 0 \<and> INT_MIN \<le> - 3 \<and>
   to_bool (take_class range_class) (take_ctor (snd (from_all [1, 2 :: int])) (- 3)) =
     Inr (False, take_ctor (snd (from_all [1, 2])) (- 3)) \<and>
   to_vector (linq_take (from_all [1, 2 :: int]) (- 3)) = Inr ([], take_ctor (snd (from_all [1, 2])) (- 3)) \<and>
   run (take_class range_class) [Valid, Current, Advance, Valid]
       (take_ctor (snd (from_all [1, 2 :: int])) (- 3)) =
     Inr ([Returned False, Read, Moved, Returned False],
          \<lparr>take_parent = \<lparr>range_coll = [1, 2], range_begin = 1, range_end = 2\<rparr>, take_amount = - 4\<rparr>) \<and>
   run (take_class range_class) [Valid, Current, Advance, Valid]
       (take_ctor (snd (from_all [1, 2 :: int])) 0) =
     Inr ([Returned False, Read, Moved, Returned False],
          \<lparr>take_parent = \<lparr>range_coll = [1, 2], range_begin = 1, range_end = 2\<rparr>, take_amount = - 1\<rparr>)"
proof -
  let ?s = "\<lparr>take_parent = \<lparr>range_coll = [1, 2 :: int], range_begin = 1, range_end = 2\<rparr>,
             take_amount = - 4\<rparr>"
  have h: "(- 3 :: int) \<le> 0" "INT_MIN \<le> - 3" by (simp_all add: INT_MIN_def)
  have r: "run (take_class range_class) [Valid, Current, Advance, Valid]
       (take_ctor (snd (from_all [1, 2 :: int])) (- 3)) =
     Inr ([Returned False, Read, Moved, Returned False], ?s)"
    by (simp add: method_defs from_all_def linq_from_def)
  from take_nonpositive [OF h(1), of range_class "snd (from_all [1, 2 :: int])" "from_all [1, 2 :: int]"
      "[Valid, Current, Advance, Valid]" "[Returned False, Read, Moved, Returned False]" ?s] h r
  show ?thesis by simp
qed

subsection \<open>until leaves the upstream at the stopping element\<close>




subsection \<open>drop with a negative count\<close>

text \<open>
  Claim C10.  For every negative count \<open>n\<close>, the constructor of the drop cursor leaves the
  upstream untouched, so \<open>drop(n)\<close> constructs the very cursor that \<open>drop(0)\<close> constructs, and the
  cursor presents every remaining element of the upstream: over a source at position \<open>b\<close> of
  \<open>xs\<close> with end \<open>e\<close>, \<open>to_vector()\<close> returns the elements from \<open>b\<close> up to \<open>e\<close>.
\<close>
theorem drop_negative:
  "n < 0 \<Longrightarrow>
   drop_ctor P p n = Inr \<lparr>drop_parent = p\<rparr> \<and>
   linq_drop c n = linq_drop c 0 \<and>
   (b \<le> e \<and> e \<le> length xs \<longrightarrow>
      (\<exists>s'. and_then (linq_drop (linq_from xs b e) n) to_vector = Inr (drop b (take e xs), s')))"
proof (intro conjI impI)
  assume n: "n < 0"
  then show "drop_ctor P p n = Inr \<lparr>drop_parent = p\<rparr>"
    by (simp add: drop_ctor_nonpositive)
  from n show "linq_drop c n = linq_drop c 0"
    by (simp add: linq_drop_def drop_ctor_nonpositive)
  assume be: "b \<le> e \<and> e \<le> length xs"
  have "refines (drop_class range_class) (\<lambda>s. range_inv (drop_parent s)) (\<lambda>s. range_rest (drop_parent s))"
    by (rule refines_drop [OF refines_range])
  from to_vector_loop_refines [OF this, of "\<lparr>drop_parent = snd (linq_from xs b e)\<rparr>" _ "[]"] be
  show "\<exists>s'. and_then (linq_drop (linq_from xs b e) n) to_vector = Inr (drop b (take e xs), s')"
    using n
    by (auto simp: linq_drop_def drop_ctor_nonpositive and_then_def to_vector_def returned_def
                   linq_from_def range_inv_def range_rest_def)
qed

theorem drop_negative_witness:
  "(- 1 :: int) < 0 \<and> ((1 :: nat) \<le> 3 \<and> 3 \<le> length [1, 2, 3, 4 :: int]) \<and>
   drop_ctor range_class (snd (linq_from [1, 2, 3, 4 :: int] 1 3)) (- 1) =
     Inr \<lparr>drop_parent = snd (linq_from [1, 2, 3, 4] 1 3)\<rparr> \<and>
   linq_drop (linq_from [1, 2, 3, 4 :: int] 1 3) (- 1) = linq_drop (linq_from [1, 2, 3, 4] 1 3) 0 \<and>
   (\<exists>s'. and_then (linq_drop (linq_from [1, 2, 3, 4 :: int] 1 3) (- 1)) to_vector = Inr ([2, 3], s'))"
proof -
  have h: "(- 1 :: int) < 0" by simp
  have l: "(1 :: nat) \<le> 3 \<and> 3 \<le> length [1, 2, 3, 4 :: int]" by simp
  have d: "drop 1 (take 3 [1, 2, 3, 4 :: int]) = [2, 3]" by (simp add: eval_nat_numeral)
  note T = drop_negative [OF h, of range_class "snd (linq_from [1, 2, 3, 4 :: int] 1 3)"
      "linq_from [1, 2, 3, 4 :: int] 1 3" 1 3 "[1, 2, 3, 4 :: int]"]
  from T have a: "drop_ctor range_class (snd (linq_from [1, 2, 3, 4 :: int] 1 3)) (- 1) =
     Inr \<lparr>drop_parent = snd (linq_from [1, 2, 3, 4] 1 3)\<rparr>"
    by (rule conjunct1)
  from T have b: "linq_drop (linq_from [1, 2, 3, 4 :: int] 1 3) (- 1) =
      linq_drop (linq_from [1, 2, 3, 4] 1 3) 0"
    by (rule conjunct2 [THEN conjunct1])
  from T [THEN conjunct2, THEN conjunct2, rule_format, OF l]
  have c: "\<exists>s'. and_then (linq_drop (linq_from [1, 2, 3, 4 :: int] 1 3) (- 1)) to_vector =
      Inr ([2, 3], s')"
    unfolding d .
  from h l a b c show ?thesis by blast
qed

end
